theory Spec2Isabelle
  imports Complex_Main "HOL-Library.Multiset" "HOL-Library.Product_Lexorder"
begin

section \<open>Execution planner (partial\_prod\_gen.py, main)\<close>

text \<open>
  The planner is the three lines of \<^verbatim>\<open>main\<close> that follow the estimate:
  \<^verbatim>\<open>
    bytes_per_triple = 12  # 4 bytes float + 4 bytes int + 4 bytes int
    est_mem_GiB = (products * bytes_per_triple) / (1024**3)
    mode = "prealloc" if est_mem_GiB <= MAX_RAM_GiB else "stream"
  \<close>
  \<^verbatim>\<open>products\<close> is a Python integer, \<^verbatim>\<open>/\<close> is true division. The quotient is taken
  over the rationals: dividing an integer by the power of two \<open>2 ^ 30\<close> and comparing
  the correctly rounded result with the integer budget gives the same truth value.
  \<^verbatim>\<open>MAX_RAM_GiB\<close> is a configuration constant of \<^verbatim>\<open>main\<close>; the mode decision takes
  it as an argument and \<open>main_mode\<close> supplies the value of the source.
\<close>

datatype mode = Prealloc | Stream

definition bytes_per_triple :: int where
  "bytes_per_triple = 12"

definition MAX_RAM_GiB :: rat where
  "MAX_RAM_GiB = 4"

definition est_mem_GiB :: "int \<Rightarrow> rat" where
  "est_mem_GiB products = of_int (products * bytes_per_triple) / of_int (1024 ^ 3)"

definition plan_mode :: "rat \<Rightarrow> int \<Rightarrow> mode" where
  "plan_mode max_ram_gib products =
     (if est_mem_GiB products \<le> max_ram_gib then Prealloc else Stream)"

definition main_mode :: "int \<Rightarrow> mode" where
  "main_mode products = plan_mode MAX_RAM_GiB products"

section \<open>NumPy arrays: indexing, slices, slice assignment\<close>

text \<open>
  The generators work on one-dimensional NumPy arrays, modelled as lists. Every
  operation that raises in NumPy is a branch of the model:
  \<^item> \<open>xs[k]\<close> with an integer: a negative \<open>k\<close> counts from the end, an index outside
    \<open>[-n, n)\<close> is an \<open>IndexError\<close>;
  \<^item> \<open>xs[s:e]\<close>: both bounds are clamped the way Python clamps slice bounds, nothing is
    raised;
  \<^item> \<open>xs[s:e] = vs\<close>: the shapes have to agree, except that a one-element right-hand
    side is broadcast; everything else is a \<open>ValueError\<close>;
  \<^item> \<open>xs[mask]\<close> with a boolean mask of another length is an \<open>IndexError\<close>;
  \<^item> \<open>np.empty(n)\<close> with a negative \<open>n\<close> is a \<open>ValueError\<close>. Its cells are not
    initialised; the model fills them with a value handed in from outside, and no result
    below depends on it.
\<close>

datatype error = IndexError | ValueError

definition bind_err :: "error + 'a \<Rightarrow> ('a \<Rightarrow> error + 'b) \<Rightarrow> error + 'b" where
  "bind_err m f = (case m of Inl e \<Rightarrow> Inl e | Inr x \<Rightarrow> f x)"

fun fold_err :: "('b \<Rightarrow> 's \<Rightarrow> error + 's) \<Rightarrow> 'b list \<Rightarrow> 's \<Rightarrow> error + 's" where
  "fold_err f [] s = Inr s"
| "fold_err f (x # xs) s = (case f x s of Inl e \<Rightarrow> Inl e | Inr s' \<Rightarrow> fold_err f xs s')"

definition np_getitem :: "'a list \<Rightarrow> int \<Rightarrow> error + 'a" where
  "np_getitem xs k =
     (let n = int (length xs)
      in if 0 \<le> k \<and> k < n then Inr (xs ! nat k)
         else if - n \<le> k \<and> k < 0 then Inr (xs ! nat (k + n))
         else Inl IndexError)"

fun np_take :: "'a list \<Rightarrow> int list \<Rightarrow> error + 'a list" where
  "np_take xs [] = Inr []"
| "np_take xs (k # ks) =
     (case np_getitem xs k of
        Inl e \<Rightarrow> Inl e
      | Inr v \<Rightarrow> (case np_take xs ks of Inl e \<Rightarrow> Inl e | Inr vs \<Rightarrow> Inr (v # vs)))"

definition slice_bound :: "nat \<Rightarrow> int \<Rightarrow> nat" where
  "slice_bound n k = (if k < 0 then nat (max 0 (k + int n)) else min n (nat k))"

definition np_slice :: "'a list \<Rightarrow> int \<Rightarrow> int \<Rightarrow> 'a list" where
  "np_slice xs s e =
     (let lo = slice_bound (length xs) s; hi = slice_bound (length xs) e
      in take (hi - lo) (drop lo xs))"

definition np_slice_to :: "'a list \<Rightarrow> int \<Rightarrow> 'a list" where
  "np_slice_to xs e = take (slice_bound (length xs) e) xs"

definition np_setslice :: "'a list \<Rightarrow> int \<Rightarrow> int \<Rightarrow> 'a list \<Rightarrow> error + 'a list" where
  "np_setslice xs s e vs =
     (let lo = slice_bound (length xs) s; hi = max lo (slice_bound (length xs) e)
      in if length vs = hi - lo then Inr (take lo xs @ vs @ drop hi xs)
         else if length vs = 1 then Inr (take lo xs @ replicate (hi - lo) (hd vs) @ drop hi xs)
         else Inl ValueError)"

definition np_fill :: "'a list \<Rightarrow> int \<Rightarrow> int \<Rightarrow> 'a \<Rightarrow> 'a list" where
  "np_fill xs s e v =
     (let lo = slice_bound (length xs) s; hi = max lo (slice_bound (length xs) e)
      in take lo xs @ replicate (hi - lo) v @ drop hi xs)"

definition np_mask :: "'a list \<Rightarrow> bool list \<Rightarrow> error + 'a list" where
  "np_mask xs m =
     (if length m = length xs then Inr (map fst (filter snd (zip xs m))) else Inl IndexError)"

definition np_empty :: "int \<Rightarrow> 'a \<Rightarrow> error + 'a list" where
  "np_empty n junk = (if n < 0 then Inl ValueError else Inr (replicate (nat n) junk))"

definition np_diff :: "int list \<Rightarrow> int list" where
  "np_diff xs = map (\<lambda>(a, b). b - a) (zip xs (tl xs))"

definition column_stack :: "'a list \<Rightarrow> int list \<Rightarrow> int list \<Rightarrow> error + ('a \<times> int \<times> int) list" where
  "column_stack ps is js =
     (if length is = length ps \<and> length js = length ps then Inr (zip ps (zip is js))
      else Inl ValueError)"

text \<open>The accumulator of \<^verbatim>\<open>.sum(dtype=np.int64)\<close>: two's complement on 64 bits.\<close>

definition wrap_int64 :: "int \<Rightarrow> int" where
  "wrap_int64 x = (x + 2 ^ 63) mod 2 ^ 64 - 2 ^ 63"

section \<open>CSR matrices\<close>

text \<open>
  A \<^verbatim>\<open>scipy.sparse.csr_matrix\<close> as the generators read it: \<^verbatim>\<open>shape\<close>, \<^verbatim>\<open>indptr\<close>,
  \<^verbatim>\<open>indices\<close>, \<^verbatim>\<open>data\<close>. The type of the values is left open (the data may be
  float32, as the loader builds it, or any wider float type), with the floating-point
  operations the code applies to them handed in as a record: the product
  \<^verbatim>\<open>a_ik * a_jk\<close> in the type of the data, the test \<^verbatim>\<open>!= 0\<close>, the conversion
  to float32 that storing into a \<^verbatim>\<open>dtype=np.float32\<close> array performs (\<open>fcast\<close>; a
  float32 is a value of every wider type, and for float32 data the conversion changes
  nothing), and the contents of uninitialised cells.
  SciPy's \<^verbatim>\<open>nnz\<close> of a compressed matrix is \<^verbatim>\<open>int(indptr[-1])\<close>.
\<close>

record 'a csr_matrix =
  shape_rows :: nat
  shape_cols :: nat
  indptr :: "int list"
  indices :: "int list"
  data :: "'a list"

record 'a numerics =
  fmul :: "'a \<Rightarrow> 'a \<Rightarrow> 'a"
  fnonzero :: "'a \<Rightarrow> bool"
  fcast :: "'a \<Rightarrow> 'a"
  junk_val :: 'a
  junk_idx :: int

definition nnz :: "'a csr_matrix \<Rightarrow> error + int" where
  "nnz A = np_getitem (indptr A) (- 1)"

text \<open>
  A valid CSR matrix (section 3 of the specification), held in 32-bit index arrays as
  SciPy builds it and as the generators store row and column numbers
  (\<^verbatim>\<open>dtype=np.int32\<close>): \<open>indptr\<close> has \<open>rows + 1\<close> entries, starts at 0, never decreases
  and ends at the number of stored entries; every stored column index is a column; the
  dimensions and the number of stored entries are below \<open>2 ^ 31\<close>. Within these bounds
  no index the traversals compute (\<^verbatim>\<open>i + 1\<close>, \<^verbatim>\<open>k + 1\<close>) leaves the 32-bit range, so
  index arithmetic is modelled on the integers; the write cursor and the buffer position
  are Python integers.
\<close>

definition valid_csr :: "'a csr_matrix \<Rightarrow> bool" where
  "valid_csr A \<longleftrightarrow>
     length (indptr A) = shape_rows A + 1
     \<and> indptr A ! 0 = 0
     \<and> indptr A ! shape_rows A = int (length (indices A))
     \<and> sorted (indptr A)
     \<and> length (data A) = length (indices A)
     \<and> (\<forall>k \<in> set (indices A). 0 \<le> k \<and> k < int (shape_cols A))
     \<and> length (indices A) < 2 ^ 31
     \<and> shape_rows A < 2 ^ 31 \<and> shape_cols A < 2 ^ 31"

section \<open>Product estimator (partial\_prod\_gen.py, estimate\_products)\<close>

definition estimate_products :: "'a csr_matrix \<Rightarrow> 'b csr_matrix \<Rightarrow> error + int" where
  "estimate_products A_csr AT_csr =
     (let nnz_per_AT_row = np_diff (indptr AT_csr)
      in bind_err (nnz A_csr) (\<lambda>a_nnz.
         if a_nnz = 0 then Inr 0
         else
           let valid_indices_k = filter (\<lambda>k. k < int (length nnz_per_AT_row)) (indices A_csr)
           in bind_err (np_take nnz_per_AT_row valid_indices_k) (\<lambda>counts.
              Inr (wrap_int64 (sum_list counts)))))"

section \<open>Pre-allocated generator (partial\_prod\_gen.py, produce\_products\_scipy\_optimized)\<close>

text \<open>
  The state of the traversal: the write cursor and the three parallel output arrays.
  \<open>prealloc_entry\<close> is the body of the inner loop for one stored entry \<open>(k, a_ik)\<close> of
  row \<open>i\<close>, \<open>prealloc_row\<close> the body of the outer loop, \<open>prealloc_traverse\<close> the
  allocation and the two loops; it returns the estimate with the final state.
  \<open>produce_products_scipy_optimized\<close> adds the trimming, the zero filter and
  \<^verbatim>\<open>np.column_stack\<close>. The array \<^verbatim>\<open>products\<close> is float32: the assignment
  \<^verbatim>\<open>products[write_pos:end_pos] = a_ik * at_row_vals\<close> converts each product on
  store, and the zero filter afterwards reads the stored values.
\<close>

record 'a prealloc_state =
  write_pos :: int
  products :: "'a list"
  i_indices :: "int list"
  j_indices :: "int list"

definition prealloc_entry ::
  "'a numerics \<Rightarrow> 'a csr_matrix \<Rightarrow> nat \<Rightarrow> int \<Rightarrow> 'a \<Rightarrow> 'a prealloc_state
   \<Rightarrow> error + 'a prealloc_state" where
  "prealloc_entry ops AT_csr i k a_ik st =
     bind_err (np_getitem (indptr AT_csr) k) (\<lambda>at_row_start.
     bind_err (np_getitem (indptr AT_csr) (k + 1)) (\<lambda>at_row_end.
     if at_row_start = at_row_end then Inr st
     else
       let at_row_cols = np_slice (indices AT_csr) at_row_start at_row_end;
           at_row_vals = np_slice (data AT_csr) at_row_start at_row_end;
           num_products = int (length at_row_vals);
           end_pos = write_pos st + num_products
       in bind_err (np_setslice (products st) (write_pos st) end_pos
                      (map (\<lambda>v. fcast ops (fmul ops a_ik v)) at_row_vals)) (\<lambda>products'.
          bind_err (np_setslice (j_indices st) (write_pos st) end_pos at_row_cols) (\<lambda>j_indices'.
          Inr \<lparr>write_pos = end_pos, products = products',
               i_indices = np_fill (i_indices st) (write_pos st) end_pos (int i),
               j_indices = j_indices'\<rparr>))))"

definition prealloc_row ::
  "'a numerics \<Rightarrow> 'a csr_matrix \<Rightarrow> 'a csr_matrix \<Rightarrow> nat \<Rightarrow> 'a prealloc_state
   \<Rightarrow> error + 'a prealloc_state" where
  "prealloc_row ops A_csr AT_csr i st =
     bind_err (np_getitem (indptr A_csr) (int i)) (\<lambda>row_start.
     bind_err (np_getitem (indptr A_csr) (int i + 1)) (\<lambda>row_end.
     if row_start = row_end then Inr st
     else
       let row_cols = np_slice (indices A_csr) row_start row_end;
           row_vals = np_slice (data A_csr) row_start row_end
       in fold_err (\<lambda>local_idx s.
            bind_err (np_getitem row_cols (int local_idx)) (\<lambda>k.
            bind_err (np_getitem row_vals (int local_idx)) (\<lambda>a_ik.
            prealloc_entry ops AT_csr i k a_ik s)))
            [0..<length row_cols] st))"

definition prealloc_traverse ::
  "'a numerics \<Rightarrow> 'a csr_matrix \<Rightarrow> 'a csr_matrix \<Rightarrow> error + (int \<times> 'a prealloc_state)" where
  "prealloc_traverse ops A_csr AT_csr =
     bind_err (estimate_products A_csr AT_csr) (\<lambda>total_products.
     bind_err (np_empty total_products (junk_val ops)) (\<lambda>products0.
     bind_err (np_empty total_products (junk_idx ops)) (\<lambda>i_indices0.
     bind_err (np_empty total_products (junk_idx ops)) (\<lambda>j_indices0.
     bind_err (fold_err (prealloc_row ops A_csr AT_csr) [0..<shape_rows A_csr]
                 \<lparr>write_pos = 0, products = products0,
                  i_indices = i_indices0, j_indices = j_indices0\<rparr>) (\<lambda>st.
     Inr (total_products, st))))))"

definition produce_products_scipy_optimized ::
  "'a numerics \<Rightarrow> 'a csr_matrix \<Rightarrow> 'a csr_matrix \<Rightarrow> error + ('a \<times> int \<times> int) list" where
  "produce_products_scipy_optimized ops A_csr AT_csr =
     bind_err (prealloc_traverse ops A_csr AT_csr) (\<lambda>(total_products, st).
     let trimmed = (write_pos st < total_products);
         products1 = (if trimmed then np_slice_to (products st) (write_pos st) else products st);
         i_indices1 = (if trimmed then np_slice_to (i_indices st) (write_pos st) else i_indices st);
         j_indices1 = (if trimmed then np_slice_to (j_indices st) (write_pos st) else j_indices st);
         non_zero_mask = map (fnonzero ops) products1
     in if \<not> list_all (\<lambda>b. b) non_zero_mask
        then bind_err (np_mask products1 non_zero_mask) (\<lambda>products2.
             bind_err (np_mask i_indices1 non_zero_mask) (\<lambda>i_indices2.
             bind_err (np_mask j_indices1 non_zero_mask) (\<lambda>j_indices2.
             column_stack products2 i_indices2 j_indices2)))
        else column_stack products1 i_indices1 j_indices1)"

section \<open>Streaming generator (partial\_prod\_gen.py, produce\_products\_stream\_scipy\_optimized)\<close>

text \<open>
  The state of the streaming traversal: the three buffers of \<^verbatim>\<open>chunk_size\<close> cells, the
  fill position, the running count, and the rows written to the CSV file so far (after
  its header row). \<open>flush\<close> is the \<^verbatim>\<open>writerows\<close> of the first \<open>buf_pos\<close> cells.

  The \<^verbatim>\<open>while remaining_products > 0\<close> loop does not terminate for every argument (with
  an empty buffer no progress is made), so it is a partial function in the option monad:
  \<open>None\<close> is a run that never returns. \<open>stream_store\<close> is the part of its body that
  filters the zeros and copies the rest into the buffers. Here the zero test reads the
  products as computed, in the type of the data, and the conversion to float32 happens
  afterwards, when the products that passed the test are stored in the float32 buffer.
  The flush test \<^verbatim>\<open>buf_pos >= chunk_size * 0.9\<close> compares an integer with a double;
  for chunk sizes below \<open>2 ^ 50\<close> it has the truth value of
  \<open>9 * chunk_size \<le> 10 * buf_pos\<close>.
  The function returns \<^verbatim>\<open>total_written\<close>; the model returns the file rows with it.
\<close>

record 'a stream_state =
  buf_products :: "'a list"
  buf_i :: "int list"
  buf_j :: "int list"
  buf_pos :: int
  total_written :: int
  csv_rows :: "('a \<times> int \<times> int) list"

definition flush :: "'a stream_state \<Rightarrow> 'a stream_state" where
  "flush st =
     st\<lparr>csv_rows := csv_rows st @
            zip (np_slice_to (buf_products st) (buf_pos st))
                (zip (np_slice_to (buf_i st) (buf_pos st)) (np_slice_to (buf_j st) (buf_pos st))),
        total_written := total_written st + buf_pos st,
        buf_pos := 0\<rparr>"

definition stream_store ::
  "('a \<Rightarrow> 'a) \<Rightarrow> int \<Rightarrow> nat \<Rightarrow> 'a list \<Rightarrow> int list \<Rightarrow> bool list \<Rightarrow> 'a stream_state
   \<Rightarrow> error + 'a stream_state" where
  "stream_store cast chunk_size i prods cols_slice non_zero_mask st =
     (if list_ex (\<lambda>b. b) non_zero_mask
      then bind_err (np_mask prods non_zero_mask) (\<lambda>valid_products.
           let valid_i = replicate (length valid_products) (int i)
           in bind_err (np_mask cols_slice non_zero_mask) (\<lambda>valid_j.
              let valid_count = int (length valid_products)
              in if buf_pos st + valid_count \<le> chunk_size
                 then bind_err (np_setslice (buf_products st) (buf_pos st)
                                  (buf_pos st + valid_count) (map cast valid_products)) (\<lambda>bp.
                      bind_err (np_setslice (buf_i st) (buf_pos st)
                                  (buf_pos st + valid_count) valid_i) (\<lambda>bi.
                      bind_err (np_setslice (buf_j st) (buf_pos st)
                                  (buf_pos st + valid_count) valid_j) (\<lambda>bj.
                      Inr (st\<lparr>buf_products := bp, buf_i := bi, buf_j := bj,
                              buf_pos := buf_pos st + valid_count\<rparr>))))
                 else Inr st))
      else Inr st)"

partial_function (option) stream_chunks ::
  "'a numerics \<Rightarrow> int \<Rightarrow> nat \<Rightarrow> 'a \<Rightarrow> int list \<Rightarrow> 'a list \<Rightarrow> int \<Rightarrow> int
   \<Rightarrow> 'a stream_state \<Rightarrow> (error + 'a stream_state) option" where
  "stream_chunks ops chunk_size i a_ik at_row_cols at_row_vals at_offset remaining_products st =
     (if remaining_products > 0
      then
        (let space_left = chunk_size - buf_pos st;
             write_count = min remaining_products space_left;
             at_end = at_offset + write_count;
             prods = map (fmul ops a_ik) (np_slice at_row_vals at_offset at_end);
             non_zero_mask = map (fnonzero ops) prods
         in case stream_store (fcast ops) chunk_size i prods
                   (np_slice at_row_cols at_offset at_end)
                   non_zero_mask st of
              Inl e \<Rightarrow> Some (Inl e)
            | Inr st1 \<Rightarrow>
                stream_chunks ops chunk_size i a_ik at_row_cols at_row_vals at_end
                  (remaining_products - write_count)
                  (if 9 * chunk_size \<le> 10 * buf_pos st1 then flush st1 else st1))
      else Some (Inr st))"

declare stream_chunks.simps [code]

fun fold_run :: "('b \<Rightarrow> 's \<Rightarrow> (error + 's) option) \<Rightarrow> 'b list \<Rightarrow> 's \<Rightarrow> (error + 's) option" where
  "fold_run f [] s = Some (Inr s)"
| "fold_run f (x # xs) s =
     (case f x s of
        None \<Rightarrow> None
      | Some (Inl e) \<Rightarrow> Some (Inl e)
      | Some (Inr s') \<Rightarrow> fold_run f xs s')"

definition bind_run :: "error + 'a \<Rightarrow> ('a \<Rightarrow> (error + 'b) option) \<Rightarrow> (error + 'b) option" where
  "bind_run m f = (case m of Inl e \<Rightarrow> Some (Inl e) | Inr x \<Rightarrow> f x)"

definition stream_entry ::
  "'a numerics \<Rightarrow> 'a csr_matrix \<Rightarrow> int \<Rightarrow> nat \<Rightarrow> int \<Rightarrow> 'a \<Rightarrow> 'a stream_state
   \<Rightarrow> (error + 'a stream_state) option" where
  "stream_entry ops AT_csr chunk_size i k a_ik st =
     bind_run (np_getitem (indptr AT_csr) k) (\<lambda>at_row_start.
     bind_run (np_getitem (indptr AT_csr) (k + 1)) (\<lambda>at_row_end.
     if at_row_start = at_row_end then Some (Inr st)
     else
       let at_row_cols = np_slice (indices AT_csr) at_row_start at_row_end;
           at_row_vals = np_slice (data AT_csr) at_row_start at_row_end;
           num_products = int (length at_row_vals)
       in stream_chunks ops chunk_size i a_ik at_row_cols at_row_vals 0 num_products st))"

definition stream_row ::
  "'a numerics \<Rightarrow> 'a csr_matrix \<Rightarrow> 'a csr_matrix \<Rightarrow> int \<Rightarrow> nat \<Rightarrow> 'a stream_state
   \<Rightarrow> (error + 'a stream_state) option" where
  "stream_row ops A_csr AT_csr chunk_size i st =
     bind_run (np_getitem (indptr A_csr) (int i)) (\<lambda>row_start.
     bind_run (np_getitem (indptr A_csr) (int i + 1)) (\<lambda>row_end.
     if row_start = row_end then Some (Inr st)
     else
       let row_cols = np_slice (indices A_csr) row_start row_end;
           row_vals = np_slice (data A_csr) row_start row_end
       in fold_run (\<lambda>local_idx s.
            bind_run (np_getitem row_cols (int local_idx)) (\<lambda>k.
            bind_run (np_getitem row_vals (int local_idx)) (\<lambda>a_ik.
            stream_entry ops AT_csr chunk_size i k a_ik s)))
            [0..<length row_cols] st))"

definition produce_products_stream_scipy_optimized ::
  "'a numerics \<Rightarrow> 'a csr_matrix \<Rightarrow> 'a csr_matrix \<Rightarrow> int
   \<Rightarrow> (error + int \<times> ('a \<times> int \<times> int) list) option" where
  "produce_products_stream_scipy_optimized ops A_csr AT_csr chunk_size =
     bind_run (np_empty chunk_size (junk_val ops)) (\<lambda>buf_products0.
     bind_run (np_empty chunk_size (junk_idx ops)) (\<lambda>buf_i0.
     bind_run (np_empty chunk_size (junk_idx ops)) (\<lambda>buf_j0.
     case fold_run (stream_row ops A_csr AT_csr chunk_size) [0..<shape_rows A_csr]
            \<lparr>buf_products = buf_products0, buf_i = buf_i0, buf_j = buf_j0,
             buf_pos = 0, total_written = 0, csv_rows = []\<rparr> of
       None \<Rightarrow> None
     | Some (Inl e) \<Rightarrow> Some (Inl e)
     | Some (Inr st) \<Rightarrow>
         (let st' = (if buf_pos st > 0 then flush st else st)
          in Some (Inr (total_written st', csv_rows st'))))))"

section \<open>Binary floating point (NumPy float32 and float64)\<close>

text \<open>
  The values of float32 and float64 arrays are rationals here. \<open>fl p emin n\<close> rounds a
  rational to the nearest value of the binary format with \<open>p\<close> significand bits whose
  exponents of the last place run from \<open>emin\<close> to \<open>emin + n\<close>; a tie goes to the even
  significand (IEEE 754 round-to-nearest-even, the mode NumPy computes in). \<open>ulp_exp\<close>
  finds the exponent of the last place: the largest \<open>e\<close> of the range with
  \<open>2 powi (e + p - 1) \<le> |x|\<close>, and \<open>emin\<close> when there is none (zero and the subnormal
  numbers). float32 has 24 significand bits and last-place exponents from -149 to 104,
  float64 has 53 and exponents from -1074 to 971. A result of magnitude \<open>2 ^ 128\<close> or
  more (float32) stands for an infinity. The sign of zero and NaN are not modelled.
\<close>

definition rne :: "rat \<Rightarrow> int" where
  "rne x =
     (let f = \<lfloor>x\<rfloor>; d = x - of_int f
      in if d < 1 / 2 then f else if 1 / 2 < d then f + 1 else if even f then f else f + 1)"

fun ulp_exp :: "nat \<Rightarrow> int \<Rightarrow> nat \<Rightarrow> rat \<Rightarrow> int" where
  "ulp_exp p emin 0 x = emin"
| "ulp_exp p emin (Suc n) x =
     (if 2 powi (emin + int n + int p) \<le> \<bar>x\<bar> then emin + int n + 1 else ulp_exp p emin n x)"

definition fl :: "nat \<Rightarrow> int \<Rightarrow> nat \<Rightarrow> rat \<Rightarrow> rat" where
  "fl p emin n x = (let e = ulp_exp p emin n x in of_int (rne (x / 2 powi e)) * 2 powi e)"

definition float32 :: "rat \<Rightarrow> rat" where
  "float32 x = fl 24 (- 149) 253 x"

definition float64 :: "rat \<Rightarrow> rat" where
  "float64 x = fl 53 (- 1074) 2045 x"

text \<open>
  A finite float32 value is a rational that the conversion leaves unchanged and that lies
  below the overflow threshold.
\<close>

definition is_float32 :: "rat \<Rightarrow> bool" where
  "is_float32 x \<longleftrightarrow> float32 x = x \<and> \<bar>x\<bar> < 2 ^ 128"

section \<open>Quantizer (cob\_part1.py line 168, cob\_part3.py line 76)\<close>

text \<open>
  Scaling is \<^verbatim>\<open>(products * scale_factor).astype(np.int32)\<close>: \<^verbatim>\<open>products\<close> is a float32
  array and \<^verbatim>\<open>scale_factor\<close> a Python integer, so the factor is converted to float32 and
  the product is rounded to float32 before the conversion to int32. The conversion is
  the C one: it drops the fraction (\<open>np_trunc\<close>). When the value does not fit in 32 bits
  (an infinity included) NumPy on x86-64 returns \<open>-2147483648\<close>, with a RuntimeWarning
  and no exception; that is the value of the model.

  Descaling is \<^verbatim>\<open>values.astype(np.float32) / scale_factor\<close>: the integer read from the
  file (through float64, which holds every int32 exactly) is rounded to float32, the
  factor is converted to float32, and their quotient is rounded to float32.
\<close>

definition np_trunc :: "rat \<Rightarrow> int" where
  "np_trunc x = (if 0 \<le> x then \<lfloor>x\<rfloor> else \<lceil>x\<rceil>)"

definition astype_int32 :: "rat \<Rightarrow> int" where
  "astype_int32 x =
     (if - (2 ^ 31) - 1 < x \<and> x < 2 ^ 31 then np_trunc x else - (2 ^ 31))"

definition quantize :: "rat \<Rightarrow> int \<Rightarrow> int" where
  "quantize v scale_factor = astype_int32 (float32 (v * float32 (of_int scale_factor)))"

definition dequantize :: "int \<Rightarrow> int \<Rightarrow> rat" where
  "dequantize q scale_factor = float32 (float32 (of_int q) / float32 (of_int scale_factor))"

definition products_scaled :: "rat list \<Rightarrow> int \<Rightarrow> int list" where
  "products_scaled ps scale_factor = map (\<lambda>v. quantize v scale_factor) ps"

definition descaled_values :: "int list \<Rightarrow> int \<Rightarrow> rat list" where
  "descaled_values qs scale_factor = map (\<lambda>q. dequantize q scale_factor) qs"

section \<open>Outer join of two frames (pandas.merge, how = outer)\<close>

text \<open>
  A data frame with key columns is a list of rows \<open>(key, value)\<close>. The outer join has,
  for every key of either frame in ascending order, the pairs of the left and right rows
  with that key, or the rows of one side alone with the other side missing (\<open>None\<close>,
  pandas' NaN) when the other frame lacks the key. The fourth component is the
  \<^verbatim>\<open>_merge\<close> indicator.
\<close>

datatype merge_indicator = left_only | right_only | both

definition merge_outer ::
  "('k::linorder \<times> 'v) list \<Rightarrow> ('k \<times> 'w) list
   \<Rightarrow> ('k \<times> 'v option \<times> 'w option \<times> merge_indicator) list" where
  "merge_outer L R =
     concat (map (\<lambda>k.
        let ls = map snd (filter (\<lambda>r. fst r = k) L);
            rs = map snd (filter (\<lambda>r. fst r = k) R)
        in if rs = [] then map (\<lambda>l. (k, Some l, None, left_only)) ls
           else if ls = [] then map (\<lambda>r. (k, None, Some r, right_only)) rs
           else concat (map (\<lambda>l. map (\<lambda>r. (k, Some l, Some r, both)) rs) ls))
       (sort (remdups (map fst L @ map fst R))))"

section \<open>Recommendation verifier (verification/verifier.py, compare\_recommendations)\<close>

text \<open>
  Both CSV files have the columns \<^verbatim>\<open>user_id, item_id, predicted_rating\<close>; a frame is
  the list of its rows, keyed by \<open>(user_id, item_id)\<close>. A file that cannot be read makes
  the function return \<^verbatim>\<open>False\<close> at once: the frame is \<open>None\<close> and so is the result.
  Otherwise the result records what the function computes and which files it writes
  (\<open>None\<close>: not written). A rating that is missing on one side is \<open>None\<close> (NaN); a
  comparison with NaN is false, so such a difference never exceeds the tolerance.
\<close>

type_synonym rec_frame = "((int \<times> int) \<times> rat) list"

type_synonym merged_row = "(int \<times> int) \<times> rat option \<times> rat option \<times> merge_indicator"

record verdict =
  passed :: bool
  total_unique_pairs :: nat
  id_mismatch_count :: nat
  common_rows_count :: nat
  rating_mismatch_count :: nat
  summary_csv :: "nat option"
  id_mismatches_csv :: "((int \<times> int) \<times> string) list option"
  rating_mismatches_csv :: "((int \<times> int) \<times> rat option \<times> rat option \<times> rat option) list option"

definition rating_diff :: "merged_row \<Rightarrow> rat option" where
  "rating_diff r =
     (case r of
        (k, Some g, Some c, m) \<Rightarrow> Some \<bar>g - c\<bar>
      | _ \<Rightarrow> None)"

definition exceeds :: "rat option \<Rightarrow> rat \<Rightarrow> bool" where
  "exceeds d tolerance = (case d of Some x \<Rightarrow> x > tolerance | None \<Rightarrow> False)"

definition uncommon_rows :: "merged_row list \<Rightarrow> merged_row list" where
  "uncommon_rows merged_df = filter (\<lambda>r. snd (snd (snd r)) \<noteq> both) merged_df"

definition common_rows :: "merged_row list \<Rightarrow> merged_row list" where
  "common_rows merged_df = filter (\<lambda>r. snd (snd (snd r)) = both) merged_df"

definition mismatched_ratings :: "rat \<Rightarrow> merged_row list \<Rightarrow> merged_row list" where
  "mismatched_ratings tolerance merged_df =
     filter (\<lambda>r. exceeds (rating_diff r) tolerance) (common_rows merged_df)"

definition source_file :: "merge_indicator \<Rightarrow> string" where
  "source_file m =
     (case m of left_only \<Rightarrow> ''in_golden_only'' | right_only \<Rightarrow> ''in_coprocessor_only''
      | both \<Rightarrow> ''both'')"

definition compare_recommendations ::
  "rec_frame option \<Rightarrow> rec_frame option \<Rightarrow> rat \<Rightarrow> rat \<Rightarrow> verdict option" where
  "compare_recommendations golden_csv coprocessor_csv tolerance mismatch_threshold_percent =
     (case (golden_csv, coprocessor_csv) of
        (Some df_golden, Some df_coprocessor) \<Rightarrow>
          (let merged_df = merge_outer df_golden df_coprocessor;
               id_mismatches = length (uncommon_rows merged_df);
               total_pairs = length merged_df;
               id_mismatch_percent =
                 (if total_pairs > 0 then of_nat id_mismatches / of_nat total_pairs * 100 else 0);
               n_common = length (common_rows merged_df);
               rating_mismatches =
                 (if n_common > 0 then length (mismatched_ratings tolerance merged_df) else 0);
               rating_mismatch_percent =
                 (if n_common > 0 then of_nat rating_mismatches / of_nat n_common * 100 else 0);
               passed_id_check = (id_mismatch_percent \<le> mismatch_threshold_percent);
               passed_rating_check = (rating_mismatch_percent \<le> mismatch_threshold_percent);
               ok = (passed_id_check \<and> passed_rating_check)
           in Some \<lparr>passed = ok,
                    total_unique_pairs = total_pairs,
                    id_mismatch_count = id_mismatches,
                    common_rows_count = n_common,
                    rating_mismatch_count = rating_mismatches,
                    summary_csv = (if ok then Some n_common else None),
                    id_mismatches_csv =
                      (if \<not> ok \<and> \<not> passed_id_check
                       then Some (map (\<lambda>r. (fst r, source_file (snd (snd (snd r)))))
                                   (uncommon_rows merged_df))
                       else None),
                    rating_mismatches_csv =
                      (if \<not> ok \<and> \<not> passed_rating_check
                       then Some (map (\<lambda>r. (fst r, fst (snd r), fst (snd (snd r)),
                                               rating_diff r))
                                   (mismatched_ratings tolerance merged_df))
                       else None)\<rparr>)
      | _ \<Rightarrow> None)"

section \<open>RTL regression checker (Mul\_verifier.py)\<close>

text \<open>
  \<open>load_sw\<close> gets the header of the reference CSV and its rows as
  \<open>(row_idx_i, col_idx_j, prod)\<close>; it returns the frame \<open>(row_idx_i, col_idx_j), gold\<close>.
  \<^verbatim>\<open>groupby(..., sort=False)\<close> keeps the groups in the order of their first row.
  \<open>build_report\<close> takes the two aggregated frames and returns the rows
  \<open>(row_idx_i, col_idx_j, gold, hw, match)\<close>. \<^verbatim>\<open>np.isclose(a, b, atol=TOL)\<close> keeps
  NumPy's default relative tolerance \<open>rtol = 1e-5\<close> and tests
  \<open>|a - b| \<le> atol + rtol * |b|\<close>. Sums and differences are taken over the rationals.
\<close>

definition TOL :: rat where
  "TOL = 1 / 10 ^ 6"

fun first_seen :: "'k list \<Rightarrow> 'k list" where
  "first_seen [] = []"
| "first_seen (k # ks) = k # filter (\<lambda>x. x \<noteq> k) (first_seen ks)"

definition groupby_sum :: "('k \<times> rat) list \<Rightarrow> ('k \<times> rat) list" where
  "groupby_sum kvs =
     map (\<lambda>k. (k, sum_list (map snd (filter (\<lambda>kv. fst kv = k) kvs)))) (first_seen (map fst kvs))"

definition load_sw :: "string list \<Rightarrow> (rat \<times> rat \<times> rat) list \<Rightarrow> error + ((rat \<times> rat) \<times> rat) list" where
  "load_sw columns rows =
     (if \<not> ({''row_idx_i'', ''col_idx_j'', ''prod''} \<subseteq> set columns) then Inl ValueError
      else Inr (groupby_sum
                  (map (\<lambda>(i, j, p). ((i, j), p)) (filter (\<lambda>(i, j, p). i \<noteq> 1 / 2) rows))))"

definition isclose :: "rat \<Rightarrow> rat \<Rightarrow> rat \<Rightarrow> rat \<Rightarrow> bool" where
  "isclose a b rtol atol \<longleftrightarrow> \<bar>a - b\<bar> \<le> atol + rtol * \<bar>b\<bar>"

definition fillna0 :: "rat option \<Rightarrow> rat" where
  "fillna0 v = (case v of None \<Rightarrow> 0 | Some x \<Rightarrow> x)"

definition build_report ::
  "((rat \<times> rat) \<times> rat) list \<Rightarrow> ((rat \<times> rat) \<times> rat) list
   \<Rightarrow> (rat \<times> rat \<times> rat \<times> rat \<times> int) list" where
  "build_report sw hw =
     sort_key (\<lambda>r. (fst r, fst (snd r)))
       (map (\<lambda>(k, g, h, m).
               (fst k, snd k, fillna0 g, fillna0 h,
                if isclose (fillna0 g) (fillna0 h) (1 / 10 ^ 5) TOL then 1 else 0))
            (merge_outer sw hw))"

section \<open>Matrix loader: column resolution (cob\_part1.py, load\_matrix\_from\_csv)\<close>

text \<open>
  The loop over \<^verbatim>\<open>df.columns\<close> with its \<^verbatim>\<open>if/elif\<close> chain, and the check that
  follows it. The rest of the function (dimensions, \<^verbatim>\<open>csr_matrix\<close>) runs after the
  check, on the three names returned here.
\<close>

definition user_aliases :: "string list" where
  "user_aliases = [''user_id'', ''user'', ''row'']"

definition item_aliases :: "string list" where
  "item_aliases = [''item_id'', ''movie_id'', ''item'', ''col'']"

definition rating_aliases :: "string list" where
  "rating_aliases = [''rating'', ''value'', ''val'']"

definition scan_column ::
  "string \<Rightarrow> string option \<times> string option \<times> string option
   \<Rightarrow> string option \<times> string option \<times> string option" where
  "scan_column col cur =
     (case cur of (user_col, item_col, rating_col) \<Rightarrow>
        if col \<in> set user_aliases then (Some col, item_col, rating_col)
        else if col \<in> set item_aliases then (user_col, Some col, rating_col)
        else if col \<in> set rating_aliases then (user_col, item_col, Some col)
        else (user_col, item_col, rating_col))"

definition resolve_columns :: "string list \<Rightarrow> error + (string \<times> string \<times> string)" where
  "resolve_columns df_columns =
     (case fold scan_column df_columns (None, None, None) of
        (Some user_col, Some item_col, Some rating_col) \<Rightarrow> Inr (user_col, item_col, rating_col)
      | _ \<Rightarrow> Inl ValueError)"

section \<open>Specification functions used in the proofs\<close>

text \<open>
  None of the following is code of the repository. They describe, as plain list
  expressions, what the traversals are proved to compute: the bounds and the entries of
  a CSR row, the triples that one stored entry, one row and the whole matrix contribute
  (in the order of the traversal, before the zero filter; \<open>raw\<close> with the products as
  computed, the others with the products converted to float32), the part of the output arrays
  below the write cursor, the invariant of the pre-allocated traversal, the effect of
  a boolean mask, the invariants of the streaming traversal with the rows it has emitted
  (written to the file or waiting in the buffers), the rows of an outer join for one key,
  the last element of a list that satisfies a predicate, and the rows the reference
  loader keeps.
\<close>

definition row_lo :: "'a csr_matrix \<Rightarrow> nat \<Rightarrow> nat" where
  "row_lo A i = nat (indptr A ! i)"

definition row_hi :: "'a csr_matrix \<Rightarrow> nat \<Rightarrow> nat" where
  "row_hi A i = nat (indptr A ! Suc i)"

definition csr_row_cols :: "'a csr_matrix \<Rightarrow> nat \<Rightarrow> int list" where
  "csr_row_cols A i = take (row_hi A i - row_lo A i) (drop (row_lo A i) (indices A))"

definition csr_row_vals :: "'a csr_matrix \<Rightarrow> nat \<Rightarrow> 'a list" where
  "csr_row_vals A i = take (row_hi A i - row_lo A i) (drop (row_lo A i) (data A))"

definition raw_entry_out :: "'a numerics \<Rightarrow> 'a csr_matrix \<Rightarrow> nat \<Rightarrow> int \<Rightarrow> 'a \<Rightarrow> ('a \<times> int \<times> int) list" where
  "raw_entry_out ops AT i k a =
     zip (map (fmul ops a) (csr_row_vals AT (nat k)))
         (zip (replicate (row_hi AT (nat k) - row_lo AT (nat k)) (int i)) (csr_row_cols AT (nat k)))"

definition raw_row_out :: "'a numerics \<Rightarrow> 'a csr_matrix \<Rightarrow> 'a csr_matrix \<Rightarrow> nat \<Rightarrow> ('a \<times> int \<times> int) list" where
  "raw_row_out ops A AT i =
     concat (map (\<lambda>(k, a). raw_entry_out ops AT i k a) (zip (csr_row_cols A i) (csr_row_vals A i)))"

definition raw_all_out :: "'a numerics \<Rightarrow> 'a csr_matrix \<Rightarrow> 'a csr_matrix \<Rightarrow> ('a \<times> int \<times> int) list" where
  "raw_all_out ops A AT = concat (map (raw_row_out ops A AT) [0..<shape_rows A])"

definition cast_triple :: "('a \<Rightarrow> 'a) \<Rightarrow> 'a \<times> int \<times> int \<Rightarrow> 'a \<times> int \<times> int" where
  "cast_triple cast t = (cast (fst t), snd t)"

definition entry_out :: "'a numerics \<Rightarrow> 'a csr_matrix \<Rightarrow> nat \<Rightarrow> int \<Rightarrow> 'a \<Rightarrow> ('a \<times> int \<times> int) list" where
  "entry_out ops AT i k a =
     zip (map (\<lambda>v. fcast ops (fmul ops a v)) (csr_row_vals AT (nat k)))
         (zip (replicate (row_hi AT (nat k) - row_lo AT (nat k)) (int i)) (csr_row_cols AT (nat k)))"

definition row_out :: "'a numerics \<Rightarrow> 'a csr_matrix \<Rightarrow> 'a csr_matrix \<Rightarrow> nat \<Rightarrow> ('a \<times> int \<times> int) list" where
  "row_out ops A AT i =
     concat (map (\<lambda>(k, a). entry_out ops AT i k a) (zip (csr_row_cols A i) (csr_row_vals A i)))"

definition all_out :: "'a numerics \<Rightarrow> 'a csr_matrix \<Rightarrow> 'a csr_matrix \<Rightarrow> ('a \<times> int \<times> int) list" where
  "all_out ops A AT = concat (map (row_out ops A AT) [0..<shape_rows A])"

definition row_count :: "'a csr_matrix \<Rightarrow> int \<Rightarrow> nat" where
  "row_count AT k = row_hi AT (nat k) - row_lo AT (nat k)"

definition written :: "'a prealloc_state \<Rightarrow> ('a \<times> int \<times> int) list" where
  "written st =
     zip (take (nat (write_pos st)) (products st))
         (zip (take (nat (write_pos st)) (i_indices st)) (take (nat (write_pos st)) (j_indices st)))"

definition pre_inv :: "nat \<Rightarrow> 'a prealloc_state \<Rightarrow> bool" where
  "pre_inv T st \<longleftrightarrow>
     0 \<le> write_pos st \<and> nat (write_pos st) \<le> T
     \<and> length (products st) = T \<and> length (i_indices st) = T \<and> length (j_indices st) = T"

definition masked :: "'a list \<Rightarrow> bool list \<Rightarrow> 'a list" where
  "masked xs m = map fst (filter snd (zip xs m))"

definition stream_pre :: "nat \<Rightarrow> 'a stream_state \<Rightarrow> bool" where
  "stream_pre cs st \<longleftrightarrow>
     length (buf_products st) = cs \<and> length (buf_i st) = cs \<and> length (buf_j st) = cs
     \<and> 0 \<le> buf_pos st \<and> nat (buf_pos st) \<le> cs
     \<and> total_written st = int (length (csv_rows st))"

definition stream_inv :: "nat \<Rightarrow> 'a stream_state \<Rightarrow> bool" where
  "stream_inv cs st \<longleftrightarrow> stream_pre cs st \<and> 10 * buf_pos st < 9 * int cs"

definition emitted :: "'a stream_state \<Rightarrow> ('a \<times> int \<times> int) list" where
  "emitted st =
     csv_rows st @
     zip (take (nat (buf_pos st)) (buf_products st))
         (zip (take (nat (buf_pos st)) (buf_i st)) (take (nat (buf_pos st)) (buf_j st)))"

definition join_rows ::
  "('k \<times> 'v) list \<Rightarrow> ('k \<times> 'w) list \<Rightarrow> 'k
   \<Rightarrow> ('k \<times> 'v option \<times> 'w option \<times> merge_indicator) list" where
  "join_rows L R k =
     (let ls = map snd (filter (\<lambda>r. fst r = k) L);
          rs = map snd (filter (\<lambda>r. fst r = k) R)
      in if rs = [] then map (\<lambda>l. (k, Some l, None, left_only)) ls
         else if ls = [] then map (\<lambda>r. (k, None, Some r, right_only)) rs
         else concat (map (\<lambda>l. map (\<lambda>r. (k, Some l, Some r, both)) rs) ls))"

definition join_keys :: "('k::linorder \<times> 'v) list \<Rightarrow> ('k \<times> 'w) list \<Rightarrow> 'k list" where
  "join_keys L R = sort (remdups (map fst L @ map fst R))"

definition last_match :: "('a \<Rightarrow> bool) \<Rightarrow> 'a list \<Rightarrow> 'a option \<Rightarrow> 'a option" where
  "last_match P cols d = (case filter P cols of [] \<Rightarrow> d | x # xs \<Rightarrow> Some (last (x # xs)))"

definition kept :: "(rat \<times> rat \<times> rat) list \<Rightarrow> ((rat \<times> rat) \<times> rat) list" where
  "kept rows = map (\<lambda>(i, j, p). ((i, j), p)) (filter (\<lambda>(i, j, p). i \<noteq> 1 / 2) rows)"

section \<open>Inputs of the scenarios\<close>

text \<open>
  Integer values stand in for float32 in the closed examples; the products involved are
  exact in both. \<open>diag_A\<close> is the matrix \<open>[[2,0],[0,3]]\<close> of the end-to-end scenario
  of the specification (its own transpose).
\<close>

definition int_ops :: "int numerics" where
  "int_ops = \<lparr>fmul = (\<lambda>x y. x * y), fnonzero = (\<lambda>x. x \<noteq> 0), fcast = (\<lambda>x. x),
               junk_val = 0, junk_idx = 0\<rparr>"

definition diag_A :: "int csr_matrix" where
  "diag_A = \<lparr>shape_rows = 2, shape_cols = 2, indptr = [0, 1, 2], indices = [0, 1],
             data = [2, 3]\<rparr>"

text \<open>
  The fan-out scenario of the specification: row 0 of \<open>fan_A\<close> has the entries 1 and 2
  in the columns 0 and 1; the rows 0 and 1 of \<open>fan_AT\<close> have one entry each, 5 and 7,
  in column 0.
\<close>

definition fan_A :: "int csr_matrix" where
  "fan_A = \<lparr>shape_rows = 1, shape_cols = 2, indptr = [0, 2], indices = [0, 1], data = [1, 2]\<rparr>"

definition fan_AT :: "int csr_matrix" where
  "fan_AT = \<lparr>shape_rows = 2, shape_cols = 1, indptr = [0, 1, 2], indices = [0, 0],
              data = [5, 7]\<rparr>"

text \<open>
  \<open>wide_A\<close> (1 by 2, one entry in column 1) and \<open>narrow_AT\<close> (1 by 1) are each a valid
  CSR matrix, but \<open>narrow_AT\<close> has no row 1: the column index stored in \<open>wide_A\<close> lies
  outside the row range of \<open>narrow_AT\<close>. \<open>neg_A\<close> stores the column index \<open>-1\<close>.
\<close>

definition wide_A :: "int csr_matrix" where
  "wide_A = \<lparr>shape_rows = 1, shape_cols = 2, indptr = [0, 1], indices = [1], data = [2]\<rparr>"

definition narrow_AT :: "int csr_matrix" where
  "narrow_AT = \<lparr>shape_rows = 1, shape_cols = 1, indptr = [0, 1], indices = [0], data = [3]\<rparr>"

definition neg_A :: "int csr_matrix" where
  "neg_A = \<lparr>shape_rows = 1, shape_cols = 1, indptr = [0, 1], indices = [- 1], data = [2]\<rparr>"

text \<open>
  The two element types the generators meet. With float32 matrices (what \<^verbatim>\<open>main\<close> loads)
  a product is rounded to float32 when it is computed, and the store into the float32
  arrays converts a float32. With float64 matrices (the default of
  \<^verbatim>\<open>scipy.sparse.csr_matrix\<close>) a product is a float64 and the store converts it.
  \<open>tiny_A\<close> is the 1 by 1 float64 matrix with the entry \<open>2 ^ -100\<close>, its own transpose.
\<close>

definition f32_ops :: "rat numerics" where
  "f32_ops = \<lparr>fmul = (\<lambda>x y. float32 (x * y)), fnonzero = (\<lambda>x. x \<noteq> 0), fcast = float32,
               junk_val = 0, junk_idx = 0\<rparr>"

definition f64_ops :: "rat numerics" where
  "f64_ops = \<lparr>fmul = (\<lambda>x y. float64 (x * y)), fnonzero = (\<lambda>x. x \<noteq> 0), fcast = float32,
               junk_val = 0, junk_idx = 0\<rparr>"

definition tiny_A :: "rat csr_matrix" where
  "tiny_A = \<lparr>shape_rows = 1, shape_cols = 1, indptr = [0, 1], indices = [0],
             data = [1 / 2 ^ 100]\<rparr>"

section \<open>Lemmas: the pre-allocated traversal on valid input\<close>

lemma bind_err_Inr [simp]: "bind_err (Inr x) f = f x"
  by (simp add: bind_err_def)

lemma bind_err_Inl [simp]: "bind_err (Inl e) f = Inl e"
  by (simp add: bind_err_def)

lemma np_getitem_nonneg: "0 \<le> k \<Longrightarrow> nat k < length xs \<Longrightarrow> np_getitem xs k = Inr (xs ! nat k)"
  by (simp add: np_getitem_def Let_def)

lemma slice_bound_nonneg: "0 \<le> k \<Longrightarrow> nat k \<le> n \<Longrightarrow> slice_bound n k = nat k"
  by (simp add: slice_bound_def)

lemma np_slice_nonneg:
  assumes "0 \<le> s" "s \<le> e" "nat e \<le> length xs"
  shows "np_slice xs s e = take (nat e - nat s) (drop (nat s) xs)"
proof -
  have "nat s \<le> length xs" using assms by linarith
  then show ?thesis
    using assms by (simp add: np_slice_def Let_def slice_bound_nonneg)
qed

lemma np_setslice_nonneg:
  assumes "0 \<le> s" "nat s + length vs \<le> length xs"
  shows "np_setslice xs s (s + int (length vs)) vs
         = Inr (take (nat s) xs @ vs @ drop (nat s + length vs) xs)"
proof -
  have a: "slice_bound (length xs) s = nat s"
    using assms by (simp add: slice_bound_nonneg)
  have b: "slice_bound (length xs) (s + int (length vs)) = nat s + length vs"
    using assms by (simp add: slice_bound_nonneg nat_add_distrib)
  show ?thesis
    by (simp add: np_setslice_def Let_def a b)
qed

lemma np_fill_nonneg:
  assumes "0 \<le> s" "nat s + n \<le> length xs"
  shows "np_fill xs s (s + int n) v = take (nat s) xs @ replicate n v @ drop (nat s + n) xs"
proof -
  have a: "slice_bound (length xs) s = nat s"
    using assms by (simp add: slice_bound_nonneg)
  have b: "slice_bound (length xs) (s + int n) = nat s + n"
    using assms by (simp add: slice_bound_nonneg nat_add_distrib)
  show ?thesis
    by (simp add: np_fill_def Let_def a b)
qed

lemma valid_indptr_mono:
  "valid_csr A \<Longrightarrow> i \<le> j \<Longrightarrow> j \<le> shape_rows A \<Longrightarrow> indptr A ! i \<le> indptr A ! j"
  by (simp add: valid_csr_def sorted_nth_mono)

lemma valid_indptr_nonneg: "valid_csr A \<Longrightarrow> i \<le> shape_rows A \<Longrightarrow> 0 \<le> indptr A ! i"
  using valid_indptr_mono [of A 0 i] by (simp add: valid_csr_def)

lemma valid_indptr_le:
  "valid_csr A \<Longrightarrow> i \<le> shape_rows A \<Longrightarrow> indptr A ! i \<le> int (length (indices A))"
  using valid_indptr_mono [of A i "shape_rows A"] by (simp add: valid_csr_def)

lemma valid_row_bounds:
  assumes "valid_csr A" "i < shape_rows A"
  shows "row_lo A i \<le> row_hi A i" "row_hi A i \<le> length (indices A)"
        "row_hi A i \<le> length (data A)"
        "indptr A ! i = int (row_lo A i)" "indptr A ! Suc i = int (row_hi A i)"
proof -
  have a: "0 \<le> indptr A ! i" using assms by (simp add: valid_indptr_nonneg)
  have b: "indptr A ! i \<le> indptr A ! Suc i" using assms by (simp add: valid_indptr_mono)
  have c: "indptr A ! Suc i \<le> int (length (indices A))" using assms by (simp add: valid_indptr_le)
  have d: "length (data A) = length (indices A)" using assms by (simp add: valid_csr_def)
  show "row_lo A i \<le> row_hi A i" using a b by (simp add: row_lo_def row_hi_def)
  show "row_hi A i \<le> length (indices A)" using a b c by (simp add: row_hi_def)
  then show "row_hi A i \<le> length (data A)" using d by simp
  show "indptr A ! i = int (row_lo A i)" using a by (simp add: row_lo_def)
  show "indptr A ! Suc i = int (row_hi A i)" using a b by (simp add: row_hi_def)
qed

lemma length_csr_row:
  assumes "valid_csr A" "i < shape_rows A"
  shows "length (csr_row_cols A i) = row_hi A i - row_lo A i"
        "length (csr_row_vals A i) = row_hi A i - row_lo A i"
  using valid_row_bounds [OF assms] by (simp_all add: csr_row_cols_def csr_row_vals_def)

lemma length_entry_out:
  assumes "valid_csr AT" "0 \<le> k" "nat k < shape_rows AT"
  shows "length (entry_out ops AT i k a) = row_hi AT (nat k) - row_lo AT (nat k)"
  using length_csr_row [OF assms(1,3)] by (simp add: entry_out_def)


lemma zip_cast_triple: "zip (map f xs) ys = map (cast_triple f) (zip xs ys)"
proof (induction xs arbitrary: ys)
  case Nil
  show ?case by simp
next
  case (Cons x xs)
  show ?case by (cases ys) (simp_all add: Cons.IH cast_triple_def)
qed

lemma entry_out_cast:
  "entry_out ops AT i k a = map (cast_triple (fcast ops)) (raw_entry_out ops AT i k a)"
  by (simp add: entry_out_def raw_entry_out_def zip_cast_triple [symmetric] comp_def)

lemma row_out_cast:
  "row_out ops A AT i = map (cast_triple (fcast ops)) (raw_row_out ops A AT i)"
  by (simp add: row_out_def raw_row_out_def map_concat entry_out_cast split_def comp_def)

lemma all_out_cast:
  "all_out ops A AT = map (cast_triple (fcast ops)) (raw_all_out ops A AT)"
  by (simp add: all_out_def raw_all_out_def map_concat row_out_cast [abs_def] comp_def)

lemma length_raw_entry_out:
  assumes "valid_csr AT" "0 \<le> k" "nat k < shape_rows AT"
  shows "length (raw_entry_out ops AT i k a) = row_hi AT (nat k) - row_lo AT (nat k)"
  using length_csr_row [OF assms(1,3)] by (simp add: raw_entry_out_def)

lemma take_after_write:
  "w + length vs \<le> length xs \<Longrightarrow>
   take (w + length vs) (take w xs @ vs @ drop (w + length vs) xs) = take w xs @ vs"
  by simp

lemma length_after_write:
  "w + length vs \<le> length xs \<Longrightarrow>
   length (take w xs @ vs @ drop (w + length vs) xs) = length xs"
  by simp

lemma prealloc_entry_ok:
  assumes v: "valid_csr AT" and k0: "0 \<le> k" and k1: "nat k < shape_rows AT"
    and inv: "pre_inv T st"
    and room: "nat (write_pos st) + length (entry_out ops AT i k a) \<le> T"
  shows "\<exists>st'. prealloc_entry ops AT i k a st = Inr st' \<and> pre_inv T st'
           \<and> write_pos st' = write_pos st + int (length (entry_out ops AT i k a))
           \<and> written st' = written st @ entry_out ops AT i k a"
proof -
  define lo where "lo = row_lo AT (nat k)"
  define hi where "hi = row_hi AT (nat k)"
  define w where "w = nat (write_pos st)"
  note rb = valid_row_bounds [OF v k1, folded lo_def hi_def]
  have len_ip: "length (indptr AT) = shape_rows AT + 1"
    using v by (simp add: valid_csr_def)
  have g1: "np_getitem (indptr AT) k = Inr (int lo)"
    using k0 k1 len_ip rb(4) by (simp add: np_getitem_nonneg)
  have nk: "nat (k + 1) = Suc (nat k)" using k0 by simp
  have g2: "np_getitem (indptr AT) (k + 1) = Inr (int hi)"
    using k0 k1 len_ip rb(5) by (simp add: np_getitem_nonneg nk)
  have len_out: "length (entry_out ops AT i k a) = hi - lo"
    using length_entry_out [OF v k0 k1] by (simp add: lo_def hi_def)
  have wp: "write_pos st = int w" "0 \<le> write_pos st"
    using inv by (simp_all add: pre_inv_def w_def)
  show ?thesis
  proof (cases "lo = hi")
    case True
    then have "entry_out ops AT i k a = []" using len_out by simp
    moreover have "prealloc_entry ops AT i k a st = Inr st"
      using True by (simp add: prealloc_entry_def g1 g2)
    ultimately show ?thesis using inv by simp
  next
    case False
    have cols: "np_slice (indices AT) (int lo) (int hi) = csr_row_cols AT (nat k)"
      using rb by (simp add: np_slice_nonneg csr_row_cols_def lo_def hi_def)
    have vals: "np_slice (data AT) (int lo) (int hi) = csr_row_vals AT (nat k)"
      using rb by (simp add: np_slice_nonneg csr_row_vals_def lo_def hi_def)
    have lc: "length (csr_row_cols AT (nat k)) = hi - lo"
      and lv: "length (csr_row_vals AT (nat k)) = hi - lo"
      using length_csr_row [OF v k1] by (simp_all add: lo_def hi_def)
    define vs where "vs = map (\<lambda>v. fcast ops (fmul ops a v)) (csr_row_vals AT (nat k))"
    define cs where "cs = csr_row_cols AT (nat k)"
    define n where "n = hi - lo"
    have lvs: "length vs = n" and lcs: "length cs = n"
      using lv lc by (simp_all add: vs_def cs_def n_def)
    have roomn: "w + n \<le> T" using room len_out by (simp add: w_def n_def)
    have lenP: "length (products st) = T" and lenI: "length (i_indices st) = T"
      and lenJ: "length (j_indices st) = T"
      using inv by (simp_all add: pre_inv_def)
    have sp: "np_setslice (products st) (write_pos st) (write_pos st + int n) vs
              = Inr (take w (products st) @ vs @ drop (w + n) (products st))"
      using np_setslice_nonneg [of "int w" vs "products st"] roomn lenP lvs
      by (simp add: wp(1))
    have sj: "np_setslice (j_indices st) (write_pos st) (write_pos st + int n) cs
              = Inr (take w (j_indices st) @ cs @ drop (w + n) (j_indices st))"
      using np_setslice_nonneg [of "int w" cs "j_indices st"] roomn lenJ lcs
      by (simp add: wp(1))
    have si: "np_fill (i_indices st) (write_pos st) (write_pos st + int n) (int i)
              = take w (i_indices st) @ replicate n (int i) @ drop (w + n) (i_indices st)"
      using np_fill_nonneg [of "int w" n "i_indices st" "int i"] roomn lenI
      by (simp add: wp(1))
    define st' where "st' = \<lparr>write_pos = write_pos st + int n,
        products = take w (products st) @ vs @ drop (w + n) (products st),
        i_indices = take w (i_indices st) @ replicate n (int i) @ drop (w + n) (i_indices st),
        j_indices = take w (j_indices st) @ cs @ drop (w + n) (j_indices st)\<rparr>"
    have run: "prealloc_entry ops AT i k a st = Inr st'"
      using False sp sj si
      by (simp add: prealloc_entry_def g1 g2 cols vals Let_def lv st'_def
          vs_def [symmetric] cs_def [symmetric] n_def [symmetric])
    have nw: "nat (write_pos st') = w + n"
      by (simp add: st'_def wp(1))
    have inv': "pre_inv T st'"
      using roomn lenP lenI lenJ lvs lcs
      by (simp add: pre_inv_def st'_def wp(1))
    have eo: "entry_out ops AT i k a = zip vs (zip (replicate n (int i)) cs)"
      by (simp add: entry_out_def vs_def cs_def n_def lo_def hi_def)
    have tP: "take (w + n) (products st') = take w (products st) @ vs"
      using roomn lenP lvs by (simp add: st'_def)
    have tI: "take (w + n) (i_indices st') = take w (i_indices st) @ replicate n (int i)"
      using roomn lenI by (simp add: st'_def)
    have tJ: "take (w + n) (j_indices st') = take w (j_indices st) @ cs"
      using roomn lenJ lcs by (simp add: st'_def)
    have wr: "written st' = written st @ entry_out ops AT i k a"
      using roomn lenP lenI lenJ
      by (simp add: written_def nw tP tI tJ eo wp(1))
    have "write_pos st' = write_pos st + int (length (entry_out ops AT i k a))"
      using len_out by (simp add: st'_def n_def)
    with run inv' wr show ?thesis by blast
  qed
qed


lemma fold_err_cong:
  "(\<And>x s. x \<in> set xs \<Longrightarrow> f x s = g x s) \<Longrightarrow> fold_err f xs s = fold_err g xs s"
  by (induction xs arbitrary: s) (auto split: sum.splits)

lemma fold_err_map: "fold_err f (map h xs) s = fold_err (\<lambda>x. f (h x)) xs s"
  by (induction xs arbitrary: s) (auto split: sum.splits)

lemma fold_err_index_loop:
  assumes "length vals = length cols"
  shows "fold_err (\<lambda>idx s. bind_err (np_getitem cols (int idx)) (\<lambda>k.
                           bind_err (np_getitem vals (int idx)) (\<lambda>a. f k a s)))
           [0..<length cols] st
         = fold_err (\<lambda>(k, a). f k a) (zip cols vals) st"
proof -
  have "fold_err (\<lambda>idx s. bind_err (np_getitem cols (int idx)) (\<lambda>k.
                           bind_err (np_getitem vals (int idx)) (\<lambda>a. f k a s)))
           [0..<length cols] st
        = fold_err (\<lambda>idx. (\<lambda>(k, a). f k a) (zip cols vals ! idx)) [0..<length cols] st"
    by (rule fold_err_cong) (simp add: np_getitem_nonneg assms)
  also have "\<dots> = fold_err (\<lambda>(k, a). f k a) (map (\<lambda>idx. zip cols vals ! idx) [0..<length (zip cols vals)]) st"
    by (simp add: fold_err_map assms)
  also have "\<dots> = fold_err (\<lambda>(k, a). f k a) (zip cols vals) st"
    by (simp only: map_nth)
  finally show ?thesis .
qed

lemma prealloc_entries_ok:
  assumes v: "valid_csr AT"
  shows "(\<forall>(k, a) \<in> set kas. 0 \<le> k \<and> nat k < shape_rows AT) \<Longrightarrow> pre_inv T st \<Longrightarrow>
     nat (write_pos st) + length (concat (map (\<lambda>(k, a). entry_out ops AT i k a) kas)) \<le> T \<Longrightarrow>
     \<exists>st'. fold_err (\<lambda>(k, a). prealloc_entry ops AT i k a) kas st = Inr st' \<and> pre_inv T st'
        \<and> write_pos st' = write_pos st + int (length (concat (map (\<lambda>(k, a). entry_out ops AT i k a) kas)))
        \<and> written st' = written st @ concat (map (\<lambda>(k, a). entry_out ops AT i k a) kas)"
proof (induction kas arbitrary: st)
  case Nil
  then show ?case by simp
next
  case (Cons ka kas)
  obtain k a where ka: "ka = (k, a)" by (cases ka)
  have kr: "0 \<le> k" "nat k < shape_rows AT" using Cons.prems(1) ka by auto
  have room1: "nat (write_pos st) + length (entry_out ops AT i k a) \<le> T"
    using Cons.prems(3) ka by simp
  from prealloc_entry_ok [OF v kr Cons.prems(2) room1]
  obtain st1 where s1: "prealloc_entry ops AT i k a st = Inr st1" "pre_inv T st1"
      "write_pos st1 = write_pos st + int (length (entry_out ops AT i k a))"
      "written st1 = written st @ entry_out ops AT i k a"
    by blast
  have p0: "0 \<le> write_pos st" using Cons.prems(2) by (simp add: pre_inv_def)
  have room2: "nat (write_pos st1)
      + length (concat (map (\<lambda>(k, a). entry_out ops AT i k a) kas)) \<le> T"
    using Cons.prems(3) ka s1(3) p0 by (simp add: nat_add_distrib)
  have rest: "\<forall>(k, a) \<in> set kas. 0 \<le> k \<and> nat k < shape_rows AT"
    using Cons.prems(1) by simp
  from Cons.IH [OF rest s1(2) room2]
  obtain st2 where s2: "fold_err (\<lambda>(k, a). prealloc_entry ops AT i k a) kas st1 = Inr st2"
      "pre_inv T st2"
      "write_pos st2 = write_pos st1 + int (length (concat (map (\<lambda>(k, a). entry_out ops AT i k a) kas)))"
      "written st2 = written st1 @ concat (map (\<lambda>(k, a). entry_out ops AT i k a) kas)"
    by blast
  have "fold_err (\<lambda>(k, a). prealloc_entry ops AT i k a) (ka # kas) st = Inr st2"
    using s1(1) s2(1) ka by simp
  moreover have "write_pos st2 = write_pos st
      + int (length (concat (map (\<lambda>(k, a). entry_out ops AT i k a) (ka # kas))))"
    using s1(3) s2(3) ka by simp
  moreover have "written st2 = written st
      @ concat (map (\<lambda>(k, a). entry_out ops AT i k a) (ka # kas))"
    using s1(4) s2(4) ka by simp
  ultimately show ?case using s2(2) by blast
qed

lemma csr_row_cols_in_range:
  assumes "valid_csr A" "(k, a) \<in> set (zip (csr_row_cols A i) (csr_row_vals A i))"
  shows "0 \<le> k \<and> nat k < shape_cols A"
proof -
  have "k \<in> set (csr_row_cols A i)" using assms(2) by (rule set_zip_leftD)
  then have "k \<in> set (indices A)"
    unfolding csr_row_cols_def by (meson in_set_dropD in_set_takeD)
  then show ?thesis using assms(1) by (auto simp: valid_csr_def)
qed

lemma prealloc_row_ok:
  assumes vA: "valid_csr A" and vT: "valid_csr AT" and dims: "shape_rows AT = shape_cols A"
    and i: "i < shape_rows A" and inv: "pre_inv T st"
    and room: "nat (write_pos st) + length (row_out ops A AT i) \<le> T"
  shows "\<exists>st'. prealloc_row ops A AT i st = Inr st' \<and> pre_inv T st'
           \<and> write_pos st' = write_pos st + int (length (row_out ops A AT i))
           \<and> written st' = written st @ row_out ops A AT i"
proof -
  note rb = valid_row_bounds [OF vA i]
  have len_ip: "length (indptr A) = shape_rows A + 1"
    using vA by (simp add: valid_csr_def)
  have g1: "np_getitem (indptr A) (int i) = Inr (int (row_lo A i))"
    using i len_ip rb(4) by (simp add: np_getitem_nonneg)
  have g2: "np_getitem (indptr A) (int i + 1) = Inr (int (row_hi A i))"
    using i len_ip rb(5) np_getitem_nonneg [of "int i + 1" "indptr A"]
    by (simp add: nat_add_distrib)
  note lr = length_csr_row [OF vA i]
  show ?thesis
  proof (cases "row_lo A i = row_hi A i")
    case True
    then have "row_out ops A AT i = []" using lr by (simp add: row_out_def)
    moreover have "prealloc_row ops A AT i st = Inr st"
      using True by (simp add: prealloc_row_def g1 g2)
    ultimately show ?thesis using inv by simp
  next
    case False
    have cols: "np_slice (indices A) (int (row_lo A i)) (int (row_hi A i)) = csr_row_cols A i"
      using rb by (simp add: np_slice_nonneg csr_row_cols_def)
    have vals: "np_slice (data A) (int (row_lo A i)) (int (row_hi A i)) = csr_row_vals A i"
      using rb by (simp add: np_slice_nonneg csr_row_vals_def)
    have lens: "length (csr_row_vals A i) = length (csr_row_cols A i)"
      using lr by simp
    have run: "prealloc_row ops A AT i st
        = fold_err (\<lambda>(k, a). prealloc_entry ops AT i k a)
            (zip (csr_row_cols A i) (csr_row_vals A i)) st"
      using False
      by (simp add: prealloc_row_def g1 g2 cols vals Let_def fold_err_index_loop [OF lens])
    have rng: "\<forall>(k, a) \<in> set (zip (csr_row_cols A i) (csr_row_vals A i)).
                 0 \<le> k \<and> nat k < shape_rows AT"
      using csr_row_cols_in_range [OF vA] dims by auto
    from prealloc_entries_ok [OF vT rng inv, of ops i] room
    show ?thesis by (simp add: run row_out_def)
  qed
qed

lemma prealloc_rows_ok:
  assumes vA: "valid_csr A" and vT: "valid_csr AT" and dims: "shape_rows AT = shape_cols A"
  shows "(\<forall>i \<in> set rs. i < shape_rows A) \<Longrightarrow> pre_inv T st \<Longrightarrow>
     nat (write_pos st) + length (concat (map (row_out ops A AT) rs)) \<le> T \<Longrightarrow>
     \<exists>st'. fold_err (prealloc_row ops A AT) rs st = Inr st' \<and> pre_inv T st'
        \<and> write_pos st' = write_pos st + int (length (concat (map (row_out ops A AT) rs)))
        \<and> written st' = written st @ concat (map (row_out ops A AT) rs)"
proof (induction rs arbitrary: st)
  case Nil
  then show ?case by simp
next
  case (Cons r rs)
  have r: "r < shape_rows A" using Cons.prems(1) by simp
  have room1: "nat (write_pos st) + length (row_out ops A AT r) \<le> T"
    using Cons.prems(3) by simp
  from prealloc_row_ok [OF vA vT dims r Cons.prems(2) room1]
  obtain st1 where s1: "prealloc_row ops A AT r st = Inr st1" "pre_inv T st1"
      "write_pos st1 = write_pos st + int (length (row_out ops A AT r))"
      "written st1 = written st @ row_out ops A AT r"
    by blast
  have p0: "0 \<le> write_pos st" using Cons.prems(2) by (simp add: pre_inv_def)
  have room2: "nat (write_pos st1) + length (concat (map (row_out ops A AT) rs)) \<le> T"
    using Cons.prems(3) s1(3) p0 by (simp add: nat_add_distrib)
  have rest: "\<forall>i \<in> set rs. i < shape_rows A" using Cons.prems(1) by simp
  from Cons.IH [OF rest s1(2) room2]
  obtain st2 where s2: "fold_err (prealloc_row ops A AT) rs st1 = Inr st2" "pre_inv T st2"
      "write_pos st2 = write_pos st1 + int (length (concat (map (row_out ops A AT) rs)))"
      "written st2 = written st1 @ concat (map (row_out ops A AT) rs)"
    by blast
  have "fold_err (prealloc_row ops A AT) (r # rs) st = Inr st2"
    using s1(1) s2(1) by simp
  moreover have "write_pos st2 = write_pos st
      + int (length (concat (map (row_out ops A AT) (r # rs))))"
    using s1(3) s2(3) by simp
  moreover have "written st2 = written st @ concat (map (row_out ops A AT) (r # rs))"
    using s1(4) s2(4) by simp
  ultimately show ?case using s2(2) by blast
qed


lemma concat_rows_take:
  assumes v: "valid_csr A"
  shows "n \<le> shape_rows A \<Longrightarrow>
         concat (map (csr_row_cols A) [0..<n]) = take (nat (indptr A ! n)) (indices A)"
proof (induction n)
  case 0
  then show ?case using v by (simp add: valid_csr_def)
next
  case (Suc n)
  have n: "n < shape_rows A" using Suc.prems by simp
  note rb = valid_row_bounds [OF v n]
  have "concat (map (csr_row_cols A) [0..<Suc n])
        = take (row_lo A n) (indices A) @ csr_row_cols A n"
    using Suc.IH n by (simp add: row_lo_def)
  also have "\<dots> = take (row_lo A n + (row_hi A n - row_lo A n)) (indices A)"
    by (simp only: csr_row_cols_def take_add)
  also have "\<dots> = take (nat (indptr A ! Suc n)) (indices A)"
    using rb(1) by (simp add: row_hi_def)
  finally show ?case .
qed

lemma concat_rows_all:
  assumes v: "valid_csr A"
  shows "concat (map (csr_row_cols A) [0..<shape_rows A]) = indices A"
  using concat_rows_take [OF v, of "shape_rows A"] v by (simp add: valid_csr_def)

lemma length_row_out:
  assumes vA: "valid_csr A" and vT: "valid_csr AT" and dims: "shape_rows AT = shape_cols A"
    and i: "i < shape_rows A"
  shows "length (row_out ops A AT i) = sum_list (map (row_count AT) (csr_row_cols A i))"
proof -
  have lens: "length (csr_row_cols A i) = length (csr_row_vals A i)"
    using length_csr_row [OF vA i] by simp
  have "map (\<lambda>ka. length ((\<lambda>(k, a). entry_out ops AT i k a) ka))
          (zip (csr_row_cols A i) (csr_row_vals A i))
        = map (\<lambda>ka. row_count AT (fst ka)) (zip (csr_row_cols A i) (csr_row_vals A i))"
  proof (rule map_cong [OF refl])
    fix ka assume m: "ka \<in> set (zip (csr_row_cols A i) (csr_row_vals A i))"
    obtain k a where ka: "ka = (k, a)" by (cases ka)
    have "0 \<le> k \<and> nat k < shape_rows AT"
      using csr_row_cols_in_range [OF vA, of k a i] m ka dims by simp
    then show "length ((\<lambda>(k, a). entry_out ops AT i k a) ka) = row_count AT (fst ka)"
      using length_entry_out [OF vT, of k ops i a] ka by (simp add: row_count_def)
  qed
  also have "\<dots> = map (row_count AT) (map fst (zip (csr_row_cols A i) (csr_row_vals A i)))"
    by simp
  also have "\<dots> = map (row_count AT) (csr_row_cols A i)"
    using lens by (simp only: map_fst_zip)
  finally show ?thesis
    by (simp add: row_out_def length_concat comp_def)
qed

lemma sum_list_map_concat:
  "sum_list (map f (concat xss)) = sum_list (map (\<lambda>xs. sum_list (map f xs)) xss)"
  for f :: "'a \<Rightarrow> nat"
  by (induction xss) simp_all

lemma length_all_out:
  assumes vA: "valid_csr A" and vT: "valid_csr AT" and dims: "shape_rows AT = shape_cols A"
  shows "length (all_out ops A AT) = sum_list (map (row_count AT) (indices A))"
proof -
  have "length (all_out ops A AT)
        = sum_list (map (\<lambda>i. length (row_out ops A AT i)) [0..<shape_rows A])"
    by (simp add: all_out_def length_concat comp_def)
  also have "\<dots>
        = sum_list (map (\<lambda>i. sum_list (map (row_count AT) (csr_row_cols A i))) [0..<shape_rows A])"
    by (rule arg_cong [where f = sum_list], rule map_cong [OF refl])
       (simp add: length_row_out [OF vA vT dims])
  also have "\<dots> = sum_list (map (row_count AT) (concat (map (csr_row_cols A) [0..<shape_rows A])))"
    by (simp add: sum_list_map_concat comp_def)
  finally show ?thesis by (simp add: concat_rows_all [OF vA])
qed

lemma sum_list_bounded:
  "(\<And>x. x \<in> set xs \<Longrightarrow> f x \<le> (m::nat)) \<Longrightarrow> sum_list (map f xs) \<le> length xs * m"
  by (induction xs) (auto simp: add_mono)

lemma row_count_le:
  assumes v: "valid_csr AT" and k: "0 \<le> k" "nat k < shape_rows AT"
  shows "row_count AT k \<le> length (indices AT)"
  using valid_row_bounds [OF v k(2)] unfolding row_count_def by linarith

lemma length_all_out_bound:
  assumes vA: "valid_csr A" and vT: "valid_csr AT" and dims: "shape_rows AT = shape_cols A"
  shows "length (all_out ops A AT) < 2 ^ 62"
proof -
  have a: "length (indices A) < 2 ^ 31" and b: "length (indices AT) < 2 ^ 31"
    using vA vT by (simp_all add: valid_csr_def)
  have "sum_list (map (row_count AT) (indices A)) \<le> length (indices A) * length (indices AT)"
  proof (rule sum_list_bounded)
    fix k assume "k \<in> set (indices A)"
    then have "0 \<le> k \<and> nat k < shape_rows AT"
      using vA dims by (auto simp: valid_csr_def)
    then show "row_count AT k \<le> length (indices AT)"
      using row_count_le [OF vT] by simp
  qed
  also have "\<dots> \<le> 2 ^ 31 * 2 ^ 31"
    using a b by (intro mult_mono) simp_all
  also have "\<dots> = (2 ^ 62 :: nat)" by simp
  finally have "sum_list (map (row_count AT) (indices A)) \<le> 2 ^ 62" .
  moreover have "sum_list (map (row_count AT) (indices A)) \<noteq> 2 ^ 62"
  proof
    assume e: "sum_list (map (row_count AT) (indices A)) = 2 ^ 62"
    have "sum_list (map (row_count AT) (indices A)) \<le> length (indices A) * length (indices AT)"
    proof (rule sum_list_bounded)
      fix k assume "k \<in> set (indices A)"
      then have "0 \<le> k \<and> nat k < shape_rows AT"
        using vA dims by (auto simp: valid_csr_def)
      then show "row_count AT k \<le> length (indices AT)"
        using row_count_le [OF vT] by simp
    qed
    also have "\<dots> \<le> (2 ^ 31 - 1) * (2 ^ 31 - 1)"
      using a b by (intro mult_mono) simp_all
    also have "\<dots> < (2 ^ 62 :: nat)" by simp
    finally show False using e by simp
  qed
  ultimately show ?thesis
    by (simp add: length_all_out [OF vA vT dims])
qed


lemma length_np_diff: "length (np_diff xs) = length xs - 1"
  by (simp add: np_diff_def)

lemma np_diff_nth: "Suc i < length xs \<Longrightarrow> np_diff xs ! i = xs ! Suc i - xs ! i"
  by (simp add: np_diff_def nth_tl)

lemma np_take_ok:
  "(\<And>k. k \<in> set ks \<Longrightarrow> 0 \<le> k \<and> nat k < length xs) \<Longrightarrow>
   np_take xs ks = Inr (map (\<lambda>k. xs ! nat k) ks)"
  by (induction ks) (simp_all add: np_getitem_nonneg)

lemma nnz_valid: "valid_csr A \<Longrightarrow> nnz A = Inr (int (length (indices A)))"
  by (simp add: nnz_def np_getitem_def valid_csr_def Let_def)

lemma wrap_int64_id: "0 \<le> x \<Longrightarrow> x < 2 ^ 63 \<Longrightarrow> wrap_int64 x = x"
  by (simp add: wrap_int64_def)

lemma sum_list_int_map:
  "sum_list (map (\<lambda>k. int (f k)) xs) = int (sum_list (map f xs))"
  by (induction xs) simp_all

lemma estimate_products_valid:
  fixes A :: "'a csr_matrix" and AT :: "'a csr_matrix"
  assumes vA: "valid_csr A" and vT: "valid_csr AT" and dims: "shape_rows AT = shape_cols A"
  shows "estimate_products A AT = Inr (int (length (all_out ops A AT)))"
proof -
  have len: "length (all_out ops A AT) = sum_list (map (row_count AT) (indices A))"
    by (rule length_all_out [OF vA vT dims])
  have ld: "length (np_diff (indptr AT)) = shape_rows AT"
    using vT by (simp add: length_np_diff valid_csr_def)
  have rng: "\<And>k. k \<in> set (indices A) \<Longrightarrow> 0 \<le> k \<and> nat k < shape_rows AT"
    using vA dims by (auto simp: valid_csr_def)
  show ?thesis
  proof (cases "indices A = []")
    case True
    then show ?thesis
      by (simp add: estimate_products_def nnz_valid [OF vA] len)
  next
    case False
    have flt: "filter (\<lambda>k. k < int (length (np_diff (indptr AT)))) (indices A) = indices A"
      using rng by (fastforce simp: ld filter_id_conv)
    have tk: "np_take (np_diff (indptr AT)) (indices A)
              = Inr (map (\<lambda>k. np_diff (indptr AT) ! nat k) (indices A))"
      by (rule np_take_ok) (simp add: ld rng)
    have mp: "map (\<lambda>k. np_diff (indptr AT) ! nat k) (indices A)
          = map (\<lambda>k. int (row_count AT k)) (indices A)"
    proof (rule map_cong [OF refl])
      fix k assume "k \<in> set (indices A)"
      then have k: "0 \<le> k" "nat k < shape_rows AT" using rng by auto
      have "Suc (nat k) < length (indptr AT)"
        using vT k by (simp add: valid_csr_def)
      then have "np_diff (indptr AT) ! nat k = indptr AT ! Suc (nat k) - indptr AT ! nat k"
        by (rule np_diff_nth)
      also have "\<dots> = int (row_count AT k)"
        using valid_row_bounds [OF vT k(2)] by (simp add: row_count_def)
      finally show "np_diff (indptr AT) ! nat k = int (row_count AT k)" .
    qed
    have sm: "sum_list (map (\<lambda>k. np_diff (indptr AT) ! nat k) (indices A))
                   = int (length (all_out ops A AT))"
      by (simp only: mp sum_list_int_map len)
    have "wrap_int64 (int (length (all_out ops A AT))) = int (length (all_out ops A AT))"
      using length_all_out_bound [OF vA vT dims, of ops]
      by (intro wrap_int64_id) simp_all
    then show ?thesis
      using False
      by (simp add: estimate_products_def nnz_valid [OF vA] Let_def flt tk sm)
  qed
qed

lemma prealloc_traverse_valid:
  assumes vA: "valid_csr A" and vT: "valid_csr AT" and dims: "shape_rows AT = shape_cols A"
  shows "\<exists>st. prealloc_traverse ops A AT = Inr (int (length (all_out ops A AT)), st)
           \<and> write_pos st = int (length (all_out ops A AT))
           \<and> pre_inv (length (all_out ops A AT)) st
           \<and> written st = all_out ops A AT"
proof -
  define T where "T = length (all_out ops A AT)"
  define st0 where "st0 = \<lparr>write_pos = 0, products = replicate T (junk_val ops),
      i_indices = replicate T (junk_idx ops), j_indices = replicate T (junk_idx ops)\<rparr>"
  have inv0: "pre_inv T st0" by (simp add: pre_inv_def st0_def)
  have w0: "written st0 = []" by (simp add: written_def st0_def)
  have room: "nat (write_pos st0) + length (concat (map (row_out ops A AT) [0..<shape_rows A])) \<le> T"
    by (simp add: st0_def T_def all_out_def)
  have rs: "\<forall>i \<in> set [0..<shape_rows A]. i < shape_rows A" by simp
  from prealloc_rows_ok [OF vA vT dims rs inv0 room]
  obtain st where st: "fold_err (prealloc_row ops A AT) [0..<shape_rows A] st0 = Inr st"
      "pre_inv T st"
      "write_pos st = write_pos st0 + int (length (concat (map (row_out ops A AT) [0..<shape_rows A])))"
      "written st = written st0 @ concat (map (row_out ops A AT) [0..<shape_rows A])"
    by blast
  have "prealloc_traverse ops A AT = Inr (int T, st)"
    using st(1)
    by (simp add: prealloc_traverse_def estimate_products_valid [OF vA vT dims, of ops]
        np_empty_def T_def [symmetric] st0_def)
  moreover have "write_pos st = int T"
    using st(3) by (simp add: st0_def T_def all_out_def)
  moreover have "written st = all_out ops A AT"
    using st(4) w0 by (simp add: all_out_def)
  ultimately show ?thesis using st(2) unfolding T_def by blast
qed

lemma np_mask_ok: "length m = length xs \<Longrightarrow> np_mask xs m = Inr (masked xs m)"
  by (simp add: np_mask_def masked_def)

lemma length_masked:
  "length xs = length m \<Longrightarrow> length (masked xs m) = length (filter (\<lambda>b. b) m)"
  by (induction xs m rule: list_induct2) (simp_all add: masked_def)

lemma zip_masked:
  "length xs = length ys \<Longrightarrow> length ys = length m \<Longrightarrow>
   zip (masked xs m) (masked ys m) = masked (zip xs ys) m"
  by (induction xs ys m rule: list_induct3) (simp_all add: masked_def)

lemma masked_by_fst:
  "length ps = length rest \<Longrightarrow>
   masked (zip ps rest) (map nz ps) = filter (\<lambda>t. nz (fst t)) (zip ps rest)"
  by (induction ps rest rule: list_induct2) (simp_all add: masked_def)

lemma produce_products_valid:
  assumes vA: "valid_csr A" and vT: "valid_csr AT" and dims: "shape_rows AT = shape_cols A"
  shows "produce_products_scipy_optimized ops A AT
         = Inr (filter (\<lambda>t. fnonzero ops (fst t)) (all_out ops A AT))"
proof -
  define T where "T = length (all_out ops A AT)"
  from prealloc_traverse_valid [OF vA vT dims, of ops]
  obtain st where st: "prealloc_traverse ops A AT = Inr (int T, st)"
      "write_pos st = int T" "pre_inv T st" "written st = all_out ops A AT"
    unfolding T_def by blast
  define P where "P = products st"
  define I where "I = i_indices st"
  define J where "J = j_indices st"
  define m where "m = map (fnonzero ops) P"
  have lP: "length P = T" and lI: "length I = T" and lJ: "length J = T"
    using st(3) by (simp_all add: pre_inv_def P_def I_def J_def)
  have lm: "length m = T" by (simp add: m_def lP)
  have out: "all_out ops A AT = zip P (zip I J)"
    using st(4) lP lI lJ by (simp add: written_def st(2) P_def I_def J_def)
  have flt: "filter (\<lambda>t. fnonzero ops (fst t)) (zip P (zip I J)) = masked (zip P (zip I J)) m"
    using lP lI lJ by (simp add: m_def masked_by_fst)
  show ?thesis
  proof (cases "list_all (\<lambda>b. b) m")
    case True
    then have "filter (\<lambda>b. b) m = m" by (simp add: list_all_iff filter_id_conv)
    then have "\<forall>p \<in> set P. fnonzero ops p"
      using True by (auto simp: m_def list_all_iff)
    then have "filter (\<lambda>t. fnonzero ops (fst t)) (zip P (zip I J)) = zip P (zip I J)"
      by (auto simp: filter_id_conv dest: set_zip_leftD)
    then show ?thesis
      using True lP lI lJ
      by (simp add: produce_products_scipy_optimized_def st(1) st(2) Let_def
          P_def [symmetric] I_def [symmetric] J_def [symmetric] m_def [symmetric]
          column_stack_def out)
  next
    case False
    have z: "zip (masked P m) (zip (masked I m) (masked J m)) = masked (zip P (zip I J)) m"
      using lP lI lJ lm by (simp add: zip_masked)
    have lens: "length (masked I m) = length (masked P m)" "length (masked J m) = length (masked P m)"
      using lP lI lJ lm by (simp_all add: length_masked)
    show ?thesis
      using False lP lI lJ lm lens
      by (simp add: produce_products_scipy_optimized_def st(1) st(2) Let_def
          P_def [symmetric] I_def [symmetric] J_def [symmetric] m_def [symmetric]
          np_mask_ok column_stack_def out flt z)
  qed
qed

section \<open>Lemmas: the streaming traversal on valid input\<close>

lemma bind_run_Inr [simp]: "bind_run (Inr x) f = f x"
  by (simp add: bind_run_def)

lemma bind_run_Inl [simp]: "bind_run (Inl e) f = Some (Inl e)"
  by (simp add: bind_run_def)

lemma masked_replicate:
  "length m = n \<Longrightarrow> masked (replicate n x) m = replicate (length (filter (\<lambda>b. b) m)) x"
  by (induction m arbitrary: n) (auto simp: masked_def)

lemma np_slice_to_nonneg: "0 \<le> e \<Longrightarrow> nat e \<le> length xs \<Longrightarrow> np_slice_to xs e = take (nat e) xs"
  by (simp add: np_slice_to_def slice_bound_nonneg)

lemma flush_ok:
  assumes "stream_pre cs st" and "0 < cs"
  shows "stream_inv cs (flush st)" "emitted (flush st) = emitted st"
proof -
  have l: "length (buf_products st) = cs" "length (buf_i st) = cs" "length (buf_j st) = cs"
    and p: "0 \<le> buf_pos st" "nat (buf_pos st) \<le> cs"
    and t: "total_written st = int (length (csv_rows st))"
    using assms(1) by (simp_all add: stream_pre_def)
  have s: "np_slice_to (buf_products st) (buf_pos st) = take (nat (buf_pos st)) (buf_products st)"
      "np_slice_to (buf_i st) (buf_pos st) = take (nat (buf_pos st)) (buf_i st)"
      "np_slice_to (buf_j st) (buf_pos st) = take (nat (buf_pos st)) (buf_j st)"
    using l p by (simp_all add: np_slice_to_nonneg)
  show "emitted (flush st) = emitted st"
    by (simp add: emitted_def flush_def s)
  show "stream_inv cs (flush st)"
    using l p t assms(2) by (simp add: stream_inv_def stream_pre_def flush_def s min_def)
qed

lemma stream_store_ok:
  assumes pre: "stream_pre cs st"
    and len: "length cols_slice = length prods"
    and room: "nat (buf_pos st) + length prods \<le> cs"
  shows "\<exists>st1. stream_store cast (int cs) i prods cols_slice (map nz prods) st = Inr st1
           \<and> stream_pre cs st1
           \<and> emitted st1 = emitted st
               @ map (cast_triple cast)
                   (filter (\<lambda>t. nz (fst t))
                      (zip prods (zip (replicate (length prods) (int i)) cols_slice)))"
proof -
  define m where "m = map nz prods"
  define n where "n = length prods"
  define full where "full = zip prods (zip (replicate n (int i)) cols_slice)"
  have lm: "length m = n" by (simp add: m_def n_def)
  have flt: "filter (\<lambda>t. nz (fst t)) full = masked full m"
    unfolding full_def m_def by (rule masked_by_fst [symmetric]) (simp add: n_def len)
  show ?thesis
  proof (cases "list_ex (\<lambda>b. b) m")
    case False
    then have "filter (\<lambda>b. b) m = []" by (auto simp: list_ex_iff filter_empty_conv)
    then have "length (masked full m) = 0"
      using length_masked [of full m] lm len by (simp add: full_def n_def)
    then have "filter (\<lambda>t. nz (fst t)) full = []" using flt by simp
    moreover have "stream_store cast (int cs) i prods cols_slice m st = Inr st"
      using False by (simp add: stream_store_def)
    ultimately show ?thesis using pre by (simp add: m_def full_def n_def)
  next
    case True
    define vp where "vp = masked prods m"
    define vc where "vc = map cast vp"
    define vj where "vj = masked cols_slice m"
    define c where "c = length vp"
    define b where "b = nat (buf_pos st)"
    have l: "length (buf_products st) = cs" "length (buf_i st) = cs" "length (buf_j st) = cs"
      and p: "0 \<le> buf_pos st" "nat (buf_pos st) \<le> cs"
      and t: "total_written st = int (length (csv_rows st))"
      using pre by (simp_all add: stream_pre_def)
    have bp: "buf_pos st = int b" using p by (simp add: b_def)
    have cm: "c = length (filter (\<lambda>b. b) m)"
      using length_masked [of prods m] lm by (simp add: c_def vp_def n_def)
    have lvc: "length vc = c" by (simp add: vc_def c_def)
    have lvj: "length vj = c"
      using length_masked [of cols_slice m] lm len cm by (simp add: vj_def n_def)
    have cn: "c \<le> n" using cm lm by (metis length_filter_le)
    have bc: "b + c \<le> cs" using room cn by (simp add: b_def n_def)
    have m1: "np_mask prods m = Inr vp" using lm by (simp add: np_mask_ok vp_def n_def)
    have m2: "np_mask cols_slice m = Inr vj" using lm len by (simp add: np_mask_ok vj_def n_def)
    have s1: "np_setslice (buf_products st) (int b) (int b + int c) vc
              = Inr (take b (buf_products st) @ vc @ drop (b + c) (buf_products st))"
      using np_setslice_nonneg [of "int b" vc "buf_products st"] bc l lvc by simp
    have s2: "np_setslice (buf_i st) (int b) (int b + int c) (replicate c (int i))
              = Inr (take b (buf_i st) @ replicate c (int i) @ drop (b + c) (buf_i st))"
      using np_setslice_nonneg [of "int b" "replicate c (int i)" "buf_i st"] bc l by simp
    have s3: "np_setslice (buf_j st) (int b) (int b + int c) vj
              = Inr (take b (buf_j st) @ vj @ drop (b + c) (buf_j st))"
      using np_setslice_nonneg [of "int b" vj "buf_j st"] bc l lvj by simp
    define st1 where "st1 = st\<lparr>buf_products := take b (buf_products st) @ vc @ drop (b + c) (buf_products st),
        buf_i := take b (buf_i st) @ replicate c (int i) @ drop (b + c) (buf_i st),
        buf_j := take b (buf_j st) @ vj @ drop (b + c) (buf_j st),
        buf_pos := int b + int c\<rparr>"
    have fits: "int b + int c \<le> int cs" using bc by linarith
    have run: "stream_store cast (int cs) i prods cols_slice m st = Inr st1"
      using True fits
      by (simp add: stream_store_def m1 m2 Let_def c_def [symmetric] vc_def [symmetric]
          bp s1 s2 s3 st1_def)
    have pre1: "stream_pre cs st1"
      using l t bc lvj lvc by (simp add: stream_pre_def st1_def)
    have nb: "nat (buf_pos st1) = b + c" by (simp add: st1_def)
    have t1: "take (b + c) (buf_products st1) = take b (buf_products st) @ vc"
      using bc l lvc by (simp add: st1_def)
    have t2: "take (b + c) (buf_i st1) = take b (buf_i st) @ replicate c (int i)"
      using bc l by (simp add: st1_def)
    have t3: "take (b + c) (buf_j st1) = take b (buf_j st) @ vj"
      using bc l lvj by (simp add: st1_def)
    have z: "zip vp (zip (replicate c (int i)) vj) = masked full m"
    proof -
      have "replicate c (int i) = masked (replicate n (int i)) m"
        using masked_replicate [of m n "int i"] lm cm by simp
      then have "zip vp (zip (replicate c (int i)) vj)
                 = zip (masked prods m) (zip (masked (replicate n (int i)) m) (masked cols_slice m))"
        by (simp add: vp_def vj_def)
      also have "\<dots> = masked full m"
        using lm len by (simp add: zip_masked full_def n_def)
      finally show ?thesis .
    qed
    have zc: "zip vc (zip (replicate c (int i)) vj)
              = map (cast_triple cast) (filter (\<lambda>t. nz (fst t)) full)"
      by (simp only: vc_def zip_cast_triple z flt)
    have rows1: "csv_rows st1 = csv_rows st" by (simp add: st1_def)
    have "emitted st1 = csv_rows st
            @ zip (take b (buf_products st) @ vc)
                (zip (take b (buf_i st) @ replicate c (int i)) (take b (buf_j st) @ vj))"
      by (simp only: emitted_def nb t1 t2 t3 rows1)
    also have "\<dots> = csv_rows st
            @ zip (take b (buf_products st)) (zip (take b (buf_i st)) (take b (buf_j st)))
            @ zip vc (zip (replicate c (int i)) vj)"
      using l bc by simp
    also have "\<dots> = emitted st @ map (cast_triple cast) (filter (\<lambda>t. nz (fst t)) full)"
      by (simp add: emitted_def bp zc)
    finally have em: "emitted st1
        = emitted st @ map (cast_triple cast) (filter (\<lambda>t. nz (fst t)) full)" .
    show ?thesis using run pre1 em by (auto simp: m_def full_def n_def)
  qed
qed

lemma after_flush_test:
  assumes "stream_pre cs st1" and "0 < cs"
  shows "stream_inv cs (if 9 * int cs \<le> 10 * buf_pos st1 then flush st1 else st1)"
        "emitted (if 9 * int cs \<le> 10 * buf_pos st1 then flush st1 else st1) = emitted st1"
  using flush_ok [OF assms] assms(1) by (auto simp: stream_inv_def)

lemma filter_zip3_split:
  assumes "w \<le> r" "length vs = r" "length cs = r"
  shows "filter P (zip vs (zip (replicate r x) cs))
         = filter P (zip (take w vs) (zip (replicate w x) (take w cs)))
           @ filter P (zip (drop w vs) (zip (replicate (r - w) x) (drop w cs)))"
proof -
  have "zip vs (zip (replicate r x) cs)
        = zip (take w vs @ drop w vs) (zip (replicate w x @ replicate (r - w) x) (take w cs @ drop w cs))"
    using assms(1) by (simp add: replicate_add [symmetric])
  also have "\<dots> = zip (take w vs) (zip (replicate w x) (take w cs))
                   @ zip (drop w vs) (zip (replicate (r - w) x) (drop w cs))"
    using assms by (subst zip_append, simp, subst zip_append, simp, simp)
  finally show ?thesis by simp
qed

lemma stream_chunks_ok:
  assumes cs: "0 < cs"
  shows "stream_inv cs st \<Longrightarrow> length cols = length vals \<Longrightarrow> off + r = length vals \<Longrightarrow>
     \<exists>st'. stream_chunks ops (int cs) i a cols vals (int off) (int r) st = Some (Inr st')
        \<and> stream_inv cs st'
        \<and> emitted st' = emitted st
            @ map (cast_triple (fcast ops)) (filter (\<lambda>t. fnonzero ops (fst t))
                (zip (map (fmul ops a) (drop off vals)) (zip (replicate r (int i)) (drop off cols))))"
proof (induction r arbitrary: off st rule: less_induct)
  case (less r)
  show ?case
  proof (cases "r = 0")
    case True
    then show ?thesis
      using less.prems by (subst stream_chunks.simps) simp
  next
    case False
    have pre: "stream_pre cs st" and thr: "10 * buf_pos st < 9 * int cs"
      using less.prems(1) by (simp_all add: stream_inv_def)
    have p: "0 \<le> buf_pos st" "nat (buf_pos st) \<le> cs"
      using pre by (simp_all add: stream_pre_def)
    define b where "b = nat (buf_pos st)"
    have bp: "buf_pos st = int b" using p by (simp add: b_def)
    have b_lt: "b < cs" using thr bp by linarith
    define w where "w = min r (cs - b)"
    have w1: "0 < w" "w \<le> r" "b + w \<le> cs" using False b_lt by (simp_all add: w_def)
    have wc: "min (int r) (int cs - buf_pos st) = int w"
    proof -
      have "int cs - int b = int (cs - b)" using b_lt by simp
      then show ?thesis by (simp only: w_def bp of_nat_min)
    qed
    have inr: "off + w \<le> length vals" using less.prems(3) w1 by simp
    have sl_v: "np_slice vals (int off) (int off + int w) = take w (drop off vals)"
      using np_slice_nonneg [of "int off" "int off + int w" vals] inr
      by (simp add: nat_add_distrib)
    have sl_c: "np_slice cols (int off) (int off + int w) = take w (drop off cols)"
      using np_slice_nonneg [of "int off" "int off + int w" cols] inr less.prems(2)
      by (simp add: nat_add_distrib)
    define prods where "prods = map (fmul ops a) (take w (drop off vals))"
    define csl where "csl = take w (drop off cols)"
    have lp: "length prods = w" using inr by (simp add: prods_def)
    have lc: "length csl = length prods" using inr less.prems(2) by (simp add: csl_def lp)
    have room: "nat (buf_pos st) + length prods \<le> cs" using w1 by (simp add: lp b_def)
    from stream_store_ok [OF pre lc room, of "fcast ops" i "fnonzero ops"]
    obtain st1 where s1: "stream_store (fcast ops) (int cs) i prods csl (map (fnonzero ops) prods) st = Inr st1"
        "stream_pre cs st1"
        "emitted st1 = emitted st
           @ map (cast_triple (fcast ops)) (filter (\<lambda>t. fnonzero ops (fst t)) (zip prods (zip (replicate (length prods) (int i)) csl)))"
      by blast
    define st2 where "st2 = (if 9 * int cs \<le> 10 * buf_pos st1 then flush st1 else st1)"
    have inv2: "stream_inv cs st2" and em2: "emitted st2 = emitted st1"
      using after_flush_test [OF s1(2) cs] by (simp_all add: st2_def)
    have rw: "r - w < r" using w1 False by simp
    have rest: "(off + w) + (r - w) = length vals" using less.prems(3) w1 by simp
    from less.IH [OF rw inv2 less.prems(2) rest]
    obtain st' where s': "stream_chunks ops (int cs) i a cols vals (int (off + w)) (int (r - w)) st2
          = Some (Inr st')" "stream_inv cs st'"
        "emitted st' = emitted st2
           @ map (cast_triple (fcast ops)) (filter (\<lambda>t. fnonzero ops (fst t))
               (zip (map (fmul ops a) (drop (off + w) vals))
                    (zip (replicate (r - w) (int i)) (drop (off + w) cols))))"
      by blast
    have iw: "int off + int w = int (off + w)" "int r - int w = int (r - w)"
      using w1 by simp_all
    have s'': "stream_chunks ops (int cs) i a cols vals (int off + int w) (int r - int w) st2
          = Some (Inr st')"
      using s'(1) by (simp only: iw)
    have rpos: "0 < int r" using False by simp
    have step: "stream_chunks ops (int cs) i a cols vals (int off) (int r) st
        = (case stream_store (fcast ops) (int cs) i prods csl (map (fnonzero ops) prods) st of
             Inl e \<Rightarrow> Some (Inl e)
           | Inr st1 \<Rightarrow>
               stream_chunks ops (int cs) i a cols vals (int off + int w) (int r - int w)
                 (if 9 * int cs \<le> 10 * buf_pos st1 then flush st1 else st1))"
      by (subst stream_chunks.simps)
         (simp only: Let_def wc sl_v sl_c prods_def [symmetric] csl_def [symmetric] rpos if_True)
    have run: "stream_chunks ops (int cs) i a cols vals (int off) (int r) st = Some (Inr st')"
      by (simp add: step s1(1) st2_def [symmetric] s'')
    have lv: "length (map (fmul ops a) (drop off vals)) = r"
      and lcd: "length (drop off cols) = r"
      using less.prems(2,3) by simp_all
    have split: "filter (\<lambda>t. fnonzero ops (fst t))
           (zip (map (fmul ops a) (drop off vals)) (zip (replicate r (int i)) (drop off cols)))
        = filter (\<lambda>t. fnonzero ops (fst t)) (zip prods (zip (replicate w (int i)) csl))
          @ filter (\<lambda>t. fnonzero ops (fst t))
              (zip (map (fmul ops a) (drop (off + w) vals))
                   (zip (replicate (r - w) (int i)) (drop (off + w) cols)))"
      using filter_zip3_split [OF w1(2) lv lcd, of "\<lambda>t. fnonzero ops (fst t)" "int i"]
      by (simp add: prods_def csl_def take_map drop_map add.commute)
    have "emitted st' = emitted st
            @ map (cast_triple (fcast ops)) (filter (\<lambda>t. fnonzero ops (fst t))
                (zip (map (fmul ops a) (drop off vals)) (zip (replicate r (int i)) (drop off cols))))"
      by (simp add: s'(3) em2 s1(3) lp split)
    with run s'(2) show ?thesis by blast
  qed
qed


lemma fold_run_cong:
  "(\<And>x s. x \<in> set xs \<Longrightarrow> f x s = g x s) \<Longrightarrow> fold_run f xs s = fold_run g xs s"
  by (induction xs arbitrary: s) (auto split: option.splits sum.splits)

lemma fold_run_map: "fold_run f (map h xs) s = fold_run (\<lambda>x. f (h x)) xs s"
  by (induction xs arbitrary: s) (auto split: option.splits sum.splits)

lemma fold_run_index_loop:
  assumes "length vals = length cols"
  shows "fold_run (\<lambda>idx s. bind_run (np_getitem cols (int idx)) (\<lambda>k.
                           bind_run (np_getitem vals (int idx)) (\<lambda>a. f k a s)))
           [0..<length cols] st
         = fold_run (\<lambda>(k, a). f k a) (zip cols vals) st"
proof -
  have "fold_run (\<lambda>idx s. bind_run (np_getitem cols (int idx)) (\<lambda>k.
                           bind_run (np_getitem vals (int idx)) (\<lambda>a. f k a s)))
           [0..<length cols] st
        = fold_run (\<lambda>idx. (\<lambda>(k, a). f k a) (zip cols vals ! idx)) [0..<length cols] st"
    by (rule fold_run_cong) (simp add: np_getitem_nonneg assms)
  also have "\<dots> = fold_run (\<lambda>(k, a). f k a) (map (\<lambda>idx. zip cols vals ! idx) [0..<length (zip cols vals)]) st"
    by (simp add: fold_run_map assms)
  also have "\<dots> = fold_run (\<lambda>(k, a). f k a) (zip cols vals) st"
    by (simp only: map_nth)
  finally show ?thesis .
qed

lemma stream_entry_ok:
  assumes v: "valid_csr AT" and k0: "0 \<le> k" and k1: "nat k < shape_rows AT"
    and inv: "stream_inv cs st" and cs: "0 < cs"
  shows "\<exists>st'. stream_entry ops AT (int cs) i k a st = Some (Inr st') \<and> stream_inv cs st'
           \<and> emitted st' = emitted st
               @ map (cast_triple (fcast ops)) (filter (\<lambda>t. fnonzero ops (fst t)) (raw_entry_out ops AT i k a))"
proof -
  define lo where "lo = row_lo AT (nat k)"
  define hi where "hi = row_hi AT (nat k)"
  note rb = valid_row_bounds [OF v k1, folded lo_def hi_def]
  have len_ip: "length (indptr AT) = shape_rows AT + 1"
    using v by (simp add: valid_csr_def)
  have g1: "np_getitem (indptr AT) k = Inr (int lo)"
    using k0 k1 len_ip rb(4) by (simp add: np_getitem_nonneg)
  have nk: "nat (k + 1) = Suc (nat k)" using k0 by simp
  have g2: "np_getitem (indptr AT) (k + 1) = Inr (int hi)"
    using k0 k1 len_ip rb(5) by (simp add: np_getitem_nonneg nk)
  have len_out: "length (raw_entry_out ops AT i k a) = hi - lo"
    using length_raw_entry_out [OF v k0 k1] by (simp add: lo_def hi_def)
  show ?thesis
  proof (cases "lo = hi")
    case True
    then have "raw_entry_out ops AT i k a = []" using len_out by simp
    moreover have "stream_entry ops AT (int cs) i k a st = Some (Inr st)"
      using True by (simp add: stream_entry_def g1 g2)
    ultimately show ?thesis using inv by simp
  next
    case False
    have cols: "np_slice (indices AT) (int lo) (int hi) = csr_row_cols AT (nat k)"
      using rb by (simp add: np_slice_nonneg csr_row_cols_def lo_def hi_def)
    have vals: "np_slice (data AT) (int lo) (int hi) = csr_row_vals AT (nat k)"
      using rb by (simp add: np_slice_nonneg csr_row_vals_def lo_def hi_def)
    have lc: "length (csr_row_cols AT (nat k)) = hi - lo"
      and lv: "length (csr_row_vals AT (nat k)) = hi - lo"
      using length_csr_row [OF v k1] by (simp_all add: lo_def hi_def)
    have run: "stream_entry ops AT (int cs) i k a st
        = stream_chunks ops (int cs) i a (csr_row_cols AT (nat k)) (csr_row_vals AT (nat k))
            (int 0) (int (hi - lo)) st"
      using False by (simp add: stream_entry_def g1 g2 cols vals Let_def lv)
    have lens: "length (csr_row_cols AT (nat k)) = length (csr_row_vals AT (nat k))"
      using lc lv by simp
    have tot: "0 + (hi - lo) = length (csr_row_vals AT (nat k))" using lv by simp
    from stream_chunks_ok [OF cs inv lens tot, of ops i a]
    show ?thesis
      by (simp only: run raw_entry_out_def drop_0 lo_def hi_def)
  qed
qed

lemma stream_entries_ok:
  assumes v: "valid_csr AT" and cs: "0 < cs"
  shows "(\<forall>(k, a) \<in> set kas. 0 \<le> k \<and> nat k < shape_rows AT) \<Longrightarrow> stream_inv cs st \<Longrightarrow>
     \<exists>st'. fold_run (\<lambda>(k, a). stream_entry ops AT (int cs) i k a) kas st = Some (Inr st')
        \<and> stream_inv cs st'
        \<and> emitted st' = emitted st
            @ map (cast_triple (fcast ops)) (filter (\<lambda>t. fnonzero ops (fst t)) (concat (map (\<lambda>(k, a). raw_entry_out ops AT i k a) kas)))"
proof (induction kas arbitrary: st)
  case Nil
  then show ?case by simp
next
  case (Cons ka kas)
  obtain k a where ka: "ka = (k, a)" by (cases ka)
  have kr: "0 \<le> k" "nat k < shape_rows AT" using Cons.prems(1) ka by auto
  from stream_entry_ok [OF v kr Cons.prems(2) cs, of ops i a]
  obtain st1 where s1: "stream_entry ops AT (int cs) i k a st = Some (Inr st1)" "stream_inv cs st1"
      "emitted st1 = emitted st @ map (cast_triple (fcast ops)) (filter (\<lambda>t. fnonzero ops (fst t)) (raw_entry_out ops AT i k a))"
    by blast
  have rest: "\<forall>(k, a) \<in> set kas. 0 \<le> k \<and> nat k < shape_rows AT"
    using Cons.prems(1) by simp
  from Cons.IH [OF rest s1(2)]
  obtain st2 where s2: "fold_run (\<lambda>(k, a). stream_entry ops AT (int cs) i k a) kas st1 = Some (Inr st2)"
      "stream_inv cs st2"
      "emitted st2 = emitted st1
         @ map (cast_triple (fcast ops)) (filter (\<lambda>t. fnonzero ops (fst t)) (concat (map (\<lambda>(k, a). raw_entry_out ops AT i k a) kas)))"
    by blast
  have "fold_run (\<lambda>(k, a). stream_entry ops AT (int cs) i k a) (ka # kas) st = Some (Inr st2)"
    using s1(1) s2(1) ka by simp
  moreover have "emitted st2 = emitted st
      @ map (cast_triple (fcast ops)) (filter (\<lambda>t. fnonzero ops (fst t)) (concat (map (\<lambda>(k, a). raw_entry_out ops AT i k a) (ka # kas))))"
    using s1(3) s2(3) ka by simp
  ultimately show ?case using s2(2) by blast
qed

lemma stream_row_ok:
  assumes vA: "valid_csr A" and vT: "valid_csr AT" and dims: "shape_rows AT = shape_cols A"
    and i: "i < shape_rows A" and inv: "stream_inv cs st" and cs: "0 < cs"
  shows "\<exists>st'. stream_row ops A AT (int cs) i st = Some (Inr st') \<and> stream_inv cs st'
           \<and> emitted st' = emitted st @ map (cast_triple (fcast ops)) (filter (\<lambda>t. fnonzero ops (fst t)) (raw_row_out ops A AT i))"
proof -
  note rb = valid_row_bounds [OF vA i]
  have len_ip: "length (indptr A) = shape_rows A + 1"
    using vA by (simp add: valid_csr_def)
  have g1: "np_getitem (indptr A) (int i) = Inr (int (row_lo A i))"
    using i len_ip rb(4) by (simp add: np_getitem_nonneg)
  have g2: "np_getitem (indptr A) (int i + 1) = Inr (int (row_hi A i))"
    using i len_ip rb(5) np_getitem_nonneg [of "int i + 1" "indptr A"]
    by (simp add: nat_add_distrib)
  note lr = length_csr_row [OF vA i]
  show ?thesis
  proof (cases "row_lo A i = row_hi A i")
    case True
    then have "raw_row_out ops A AT i = []" using lr by (simp add: raw_row_out_def)
    moreover have "stream_row ops A AT (int cs) i st = Some (Inr st)"
      using True by (simp add: stream_row_def g1 g2)
    ultimately show ?thesis using inv by simp
  next
    case False
    have cols: "np_slice (indices A) (int (row_lo A i)) (int (row_hi A i)) = csr_row_cols A i"
      using rb by (simp add: np_slice_nonneg csr_row_cols_def)
    have vals: "np_slice (data A) (int (row_lo A i)) (int (row_hi A i)) = csr_row_vals A i"
      using rb by (simp add: np_slice_nonneg csr_row_vals_def)
    have lens: "length (csr_row_vals A i) = length (csr_row_cols A i)"
      using lr by simp
    have run: "stream_row ops A AT (int cs) i st
        = fold_run (\<lambda>(k, a). stream_entry ops AT (int cs) i k a)
            (zip (csr_row_cols A i) (csr_row_vals A i)) st"
      using False
      by (simp add: stream_row_def g1 g2 cols vals Let_def fold_run_index_loop [OF lens])
    have rng: "\<forall>(k, a) \<in> set (zip (csr_row_cols A i) (csr_row_vals A i)).
                 0 \<le> k \<and> nat k < shape_rows AT"
      using csr_row_cols_in_range [OF vA] dims by auto
    from stream_entries_ok [OF vT cs rng inv, of ops i]
    show ?thesis by (simp add: run raw_row_out_def)
  qed
qed

lemma stream_rows_ok:
  assumes vA: "valid_csr A" and vT: "valid_csr AT" and dims: "shape_rows AT = shape_cols A"
    and cs: "0 < cs"
  shows "(\<forall>i \<in> set rs. i < shape_rows A) \<Longrightarrow> stream_inv cs st \<Longrightarrow>
     \<exists>st'. fold_run (stream_row ops A AT (int cs)) rs st = Some (Inr st') \<and> stream_inv cs st'
        \<and> emitted st' = emitted st
            @ map (cast_triple (fcast ops)) (filter (\<lambda>t. fnonzero ops (fst t)) (concat (map (raw_row_out ops A AT) rs)))"
proof (induction rs arbitrary: st)
  case Nil
  then show ?case by simp
next
  case (Cons r rs)
  have r: "r < shape_rows A" using Cons.prems(1) by simp
  from stream_row_ok [OF vA vT dims r Cons.prems(2) cs, of ops]
  obtain st1 where s1: "stream_row ops A AT (int cs) r st = Some (Inr st1)" "stream_inv cs st1"
      "emitted st1 = emitted st @ map (cast_triple (fcast ops)) (filter (\<lambda>t. fnonzero ops (fst t)) (raw_row_out ops A AT r))"
    by blast
  have rest: "\<forall>i \<in> set rs. i < shape_rows A" using Cons.prems(1) by simp
  from Cons.IH [OF rest s1(2)]
  obtain st2 where s2: "fold_run (stream_row ops A AT (int cs)) rs st1 = Some (Inr st2)"
      "stream_inv cs st2"
      "emitted st2 = emitted st1
         @ map (cast_triple (fcast ops)) (filter (\<lambda>t. fnonzero ops (fst t)) (concat (map (raw_row_out ops A AT) rs)))"
    by blast
  have "fold_run (stream_row ops A AT (int cs)) (r # rs) st = Some (Inr st2)"
    using s1(1) s2(1) by simp
  moreover have "emitted st2 = emitted st
      @ map (cast_triple (fcast ops)) (filter (\<lambda>t. fnonzero ops (fst t)) (concat (map (raw_row_out ops A AT) (r # rs))))"
    using s1(3) s2(3) by simp
  ultimately show ?case using s2(2) by blast
qed

lemma produce_products_stream_valid:
  assumes vA: "valid_csr A" and vT: "valid_csr AT" and dims: "shape_rows AT = shape_cols A"
    and cs: "0 < chunk_size"
  shows "produce_products_stream_scipy_optimized ops A AT chunk_size
         = Some (Inr (int (length (map (cast_triple (fcast ops)) (filter (\<lambda>t. fnonzero ops (fst t)) (raw_all_out ops A AT)))),
                      map (cast_triple (fcast ops)) (filter (\<lambda>t. fnonzero ops (fst t)) (raw_all_out ops A AT))))"
proof -
  define c where "c = nat chunk_size"
  have cc: "chunk_size = int c" "0 < c" using cs by (simp_all add: c_def)
  define st0 where "st0 = \<lparr>buf_products = replicate c (junk_val ops),
      buf_i = replicate c (junk_idx ops), buf_j = replicate c (junk_idx ops),
      buf_pos = 0, total_written = 0, csv_rows = ([] :: ('a \<times> int \<times> int) list)\<rparr>"
  have inv0: "stream_inv c st0"
    using cc(2) by (simp add: stream_inv_def stream_pre_def st0_def)
  have e0: "emitted st0 = []" by (simp add: emitted_def st0_def)
  have rs: "\<forall>i \<in> set [0..<shape_rows A]. i < shape_rows A" by simp
  from stream_rows_ok [OF vA vT dims cc(2) rs inv0, of ops]
  obtain st where st: "fold_run (stream_row ops A AT (int c)) [0..<shape_rows A] st0 = Some (Inr st)"
      "stream_inv c st"
      "emitted st = emitted st0
         @ map (cast_triple (fcast ops)) (filter (\<lambda>t. fnonzero ops (fst t)) (concat (map (raw_row_out ops A AT) [0..<shape_rows A])))"
    by blast
  have em: "emitted st = map (cast_triple (fcast ops)) (filter (\<lambda>t. fnonzero ops (fst t)) (raw_all_out ops A AT))"
    using st(3) e0 by (simp add: raw_all_out_def)
  have pre: "stream_pre c st" using st(2) by (simp add: stream_inv_def)
  define st' where "st' = (if buf_pos st > 0 then flush st else st)"
  have pre': "stream_pre c st'"
    using flush_ok(1) [OF pre cc(2)] pre by (simp add: st'_def stream_inv_def)
  have rows': "csv_rows st' = emitted st"
  proof (cases "buf_pos st > 0")
    case True
    have "emitted (flush st) = csv_rows (flush st)"
      by (simp add: emitted_def flush_def)
    then show ?thesis using True flush_ok(2) [OF pre cc(2)] by (simp add: st'_def)
  next
    case False
    moreover have "0 \<le> buf_pos st" using pre by (simp add: stream_pre_def)
    ultimately have "buf_pos st = 0" by simp
    then show ?thesis by (simp add: st'_def emitted_def)
  qed
  have tw: "total_written st' = int (length (csv_rows st'))"
    using pre' by (simp add: stream_pre_def)
  show ?thesis
    using st(1) tw rows' em
    by (simp add: produce_products_stream_scipy_optimized_def cc(1) np_empty_def
        st0_def [symmetric] st'_def [symmetric] Let_def)
qed

section \<open>Lemmas: rounding and the quantizer\<close>

lemma pow2_less_imp: "(2::rat) powi a < 2 powi b \<Longrightarrow> a < b"
  using power_int_increasing [of b a "2::rat"] by (cases "a < b") auto

lemma ulp_exp_bounds: "emin \<le> ulp_exp p emin n x \<and> ulp_exp p emin n x \<le> emin + int n"
  by (induction n) auto

lemma ulp_exp_low:
  "ulp_exp p emin n x = emin \<or> 2 powi (ulp_exp p emin n x + int p - 1) \<le> \<bar>x\<bar>"
  by (induction n) (auto simp: add.assoc)

lemma ulp_exp_high:
  "ulp_exp p emin n x = emin + int n \<or> \<bar>x\<bar> < 2 powi (ulp_exp p emin n x + int p)"
proof (induction n)
  case 0
  show ?case by simp
next
  case (Suc n)
  show ?case
  proof (cases "2 powi (emin + int n + int p) \<le> \<bar>x\<bar>")
    case True
    then show ?thesis by simp
  next
    case False
    then show ?thesis using Suc by auto
  qed
qed

lemma ulp_exp_eq:
  "emin \<le> e \<Longrightarrow> e \<le> emin + int n \<Longrightarrow> e = emin \<or> 2 powi (e + int p - 1) \<le> \<bar>x\<bar> \<Longrightarrow>
   e = emin + int n \<or> \<bar>x\<bar> < 2 powi (e + int p) \<Longrightarrow> ulp_exp p emin n x = e"
proof (induction n)
  case 0
  then show ?case by simp
next
  case (Suc n)
  show ?case
  proof (cases "2 powi (emin + int n + int p) \<le> \<bar>x\<bar>")
    case True
    have "e = emin + int (Suc n)"
    proof (rule ccontr)
      assume ne: "e \<noteq> emin + int (Suc n)"
      then have "\<bar>x\<bar> < 2 powi (e + int p)" using Suc.prems(4) by simp
      then have "(2::rat) powi (emin + int n + int p) < 2 powi (e + int p)" using True by simp
      then have "emin + int n + int p < e + int p" by (rule pow2_less_imp)
      then show False using ne Suc.prems(2) by simp
    qed
    then show ?thesis using True by simp
  next
    case False
    have ne: "e \<noteq> emin + int (Suc n)"
    proof
      assume eq: "e = emin + int (Suc n)"
      then have "e \<noteq> emin" by simp
      then have "2 powi (e + int p - 1) \<le> \<bar>x\<bar>" using Suc.prems(3) by simp
      moreover have "e + int p - 1 = emin + int n + int p" using eq by simp
      ultimately show False using False by simp
    qed
    then have le: "e \<le> emin + int n" using Suc.prems(2) by simp
    have hi: "e = emin + int n \<or> \<bar>x\<bar> < 2 powi (e + int p)" using Suc.prems(4) ne by simp
    show ?thesis using False Suc.IH [OF Suc.prems(1) le Suc.prems(3) hi] by simp
  qed
qed

lemma rne_of_int: "rne (of_int m) = m"
  by (simp add: rne_def)

lemma fl_eval:
  assumes "emin \<le> e" "e \<le> emin + int n" "e = emin \<or> 2 powi (e + int p - 1) \<le> \<bar>x\<bar>"
    "e = emin + int n \<or> \<bar>x\<bar> < 2 powi (e + int p)"
  shows "fl p emin n x = of_int (rne (x / 2 powi e)) * 2 powi e"
  using ulp_exp_eq [OF assms] by (simp add: fl_def)

lemma fl_fixed:
  assumes m: "\<bar>m\<bar> < 2 ^ p \<or> emin + int n \<le> e" and e: "emin \<le> e"
  shows "fl p emin n (of_int m * 2 powi e) = of_int m * 2 powi e"
proof -
  define x where "x = (of_int m :: rat) * 2 powi e"
  define e0 where "e0 = ulp_exp p emin n x"
  have le: "e0 \<le> e"
  proof (cases "e0 = emin \<or> emin + int n \<le> e")
    case True
    then show ?thesis using e ulp_exp_bounds [of emin p n x] by (auto simp: e0_def)
  next
    case False
    then have m': "\<bar>m\<bar> < 2 ^ p" using m by simp
    from False have "2 powi (e0 + int p - 1) \<le> \<bar>x\<bar>"
      using ulp_exp_low [of p emin n x] by (simp add: e0_def)
    also have "\<bar>x\<bar> = of_int \<bar>m\<bar> * 2 powi e" by (simp add: x_def abs_mult)
    also have "\<dots> < 2 ^ p * 2 powi e"
    proof -
      have "(of_int \<bar>m\<bar> :: rat) < of_int (2 ^ p)" using m' by (simp only: of_int_less_iff)
      then show ?thesis by simp
    qed
    also have "\<dots> = 2 powi (int p + e)" by (simp add: power_int_add)
    finally have "e0 + int p - 1 < int p + e" by (rule pow2_less_imp)
    then show ?thesis by simp
  qed
  define k where "k = nat (e - e0)"
  have ek: "e = int k + e0" using le by (simp add: k_def)
  have pw: "(2::rat) powi e = 2 ^ k * 2 powi e0" by (simp add: ek power_int_add)
  have "x / 2 powi e0 = of_int (m * 2 ^ k)" by (simp add: x_def pw)
  then have "rne (x / 2 powi e0) = m * 2 ^ k" by (simp only: rne_of_int)
  then have "fl p emin n x = of_int (m * 2 ^ k) * 2 powi e0"
    by (simp add: fl_def e0_def [symmetric])
  also have "\<dots> = x" by (simp add: x_def pw)
  finally show ?thesis by (simp add: x_def)
qed

lemma fl_repr:
  assumes m: "\<bar>m\<bar> < 2 ^ p" and e: "emin \<le> e"
  shows "fl p emin n (of_int m * 2 powi e) = of_int m * 2 powi e"
  using m e by (intro fl_fixed) simp_all

lemma rne_between: "\<lfloor>x\<rfloor> \<le> rne x \<and> rne x \<le> \<lceil>x\<rceil>"
proof (cases "x = of_int \<lfloor>x\<rfloor>")
  case True
  then have "rne x = \<lfloor>x\<rfloor>" by (metis rne_of_int)
  then show ?thesis by (simp add: floor_le_ceiling)
next
  case False
  then have "\<lceil>x\<rceil> = \<lfloor>x\<rfloor> + 1" by (simp add: ceiling_altdef)
  then show ?thesis by (simp add: rne_def Let_def)
qed

lemma rne_abs_le:
  assumes "\<bar>x\<bar> < of_int N"
  shows "\<bar>rne x\<bar> \<le> N"
proof -
  have "x < of_int N" "- of_int N < x" using assms by (simp_all add: abs_less_iff)
  then have "\<lceil>x\<rceil> \<le> N" "- N \<le> \<lfloor>x\<rfloor>" by (simp_all add: ceiling_le_iff le_floor_iff)
  then show ?thesis using rne_between [of x] by linarith
qed

lemma fl_idem:
  assumes p: "0 < p"
  shows "fl p emin n (fl p emin n x) = fl p emin n x"
proof -
  define e0 where "e0 = ulp_exp p emin n x"
  define m where "m = rne (x / 2 powi e0)"
  have y: "fl p emin n x = of_int m * 2 powi e0" by (simp add: fl_def e0_def m_def Let_def)
  have lo: "emin \<le> e0" using ulp_exp_bounds [of emin p n x] by (simp add: e0_def)
  show ?thesis
  proof (cases "\<bar>m\<bar> < 2 ^ p \<or> emin + int n \<le> e0")
    case True
    then show ?thesis unfolding y using lo by (intro fl_fixed)
  next
    case False
    then have ne: "e0 \<noteq> emin + int n" and big: "2 ^ p \<le> \<bar>m\<bar>" by simp_all
    have "\<bar>x\<bar> < 2 powi (e0 + int p)"
      using ulp_exp_high [of p emin n x] ne by (simp add: e0_def)
    also have "\<dots> = 2 ^ p * 2 powi e0" by (simp add: power_int_add)
    finally have "\<bar>x\<bar> / 2 powi e0 < 2 ^ p" by (simp add: pos_divide_less_eq)
    then have "\<bar>x / 2 powi e0\<bar> < of_int (2 ^ p)" by simp
    then have "\<bar>m\<bar> \<le> 2 ^ p" unfolding m_def by (rule rne_abs_le)
    with big have am: "\<bar>m\<bar> = 2 ^ p" by simp
    obtain p' where p': "p = Suc p'" using p by (cases p) simp_all
    define m' where "m' = sgn m * 2 ^ p'"
    have mm: "m = m' * 2" using am by (simp add: m'_def p' abs_if sgn_if split: if_splits)
    have sm: "\<bar>m'\<bar> < 2 ^ p" using am by (auto simp: m'_def p' abs_mult sgn_if)
    have "(of_int m :: rat) * 2 powi e0 = of_int m' * 2 powi (e0 + 1)"
      by (simp add: mm power_int_add)
    moreover have "fl p emin n (of_int m' * 2 powi (e0 + 1)) = of_int m' * 2 powi (e0 + 1)"
      using sm lo by (intro fl_repr) simp_all
    ultimately show ?thesis by (simp add: y)
  qed
qed

lemma float32_idem: "float32 (float32 x) = float32 x"
  unfolding float32_def by (rule fl_idem) simp

lemma float32_repr:
  "\<bar>m\<bar> < 2 ^ 24 \<Longrightarrow> - 149 \<le> e \<Longrightarrow> float32 (of_int m * 2 powi e) = of_int m * 2 powi e"
  unfolding float32_def by (rule fl_repr)

lemma is_float32_decomp:
  assumes "is_float32 v"
  shows "\<exists>m e. v = of_int m * 2 powi e \<and> \<bar>m\<bar> < 2 ^ 24 \<and> - 149 \<le> e"
proof -
  define e0 where "e0 = ulp_exp 24 (- 149) 253 v"
  define m where "m = rne (v / 2 powi e0)"
  have "float32 v = v" using assms by (simp add: is_float32_def)
  then have v: "v = of_int m * 2 powi e0"
    unfolding float32_def fl_def Let_def e0_def m_def by (rule sym)
  have lo: "- 149 \<le> e0" using ulp_exp_bounds [of "- 149" 24 253 v] by (simp add: e0_def)
  have hi: "\<bar>v\<bar> < 2 powi (e0 + 24)"
  proof (cases "e0 = 104")
    case True
    have "\<bar>v\<bar> < 2 ^ 128" using assms by (simp add: is_float32_def)
    then show ?thesis using True by simp
  next
    case False
    then show ?thesis using ulp_exp_high [of 24 "- 149" 253 v] by (simp add: e0_def)
  qed
  have "\<bar>v\<bar> = of_int \<bar>m\<bar> * 2 powi e0" by (subst v) (simp add: abs_mult)
  moreover have "(2::rat) powi (e0 + 24) = 2 ^ 24 * 2 powi e0" by (simp add: power_int_add)
  ultimately have "(of_int \<bar>m\<bar> :: rat) * 2 powi e0 < 2 ^ 24 * 2 powi e0" using hi by simp
  then have "(of_int \<bar>m\<bar> :: rat) < 2 ^ 24" by simp
  then have "(of_int \<bar>m\<bar> :: rat) < of_int (2 ^ 24)" by simp
  then have "\<bar>m\<bar> < 2 ^ 24" by (simp only: of_int_less_iff)
  with v lo show ?thesis by blast
qed


lemma is_float32I:
  assumes m: "\<bar>m\<bar> < 2 ^ 24" and lo: "- 149 \<le> e" and hi: "e \<le> 104"
  shows "is_float32 (of_int m * 2 powi e)"
proof -
  have "(of_int \<bar>m\<bar> :: rat) < of_int (2 ^ 24)" using m by (simp only: of_int_less_iff)
  then have 1: "(of_int \<bar>m\<bar> :: rat) < 2 ^ 24" by simp
  have 2: "(2::rat) powi e \<le> 2 powi 104" using hi by (intro power_int_increasing) simp_all
  have "\<bar>of_int m * 2 powi e :: rat\<bar> = of_int \<bar>m\<bar> * 2 powi e" by (simp add: abs_mult)
  also have "\<dots> < 2 ^ 24 * 2 powi e" using 1 by simp
  also have "\<dots> \<le> 2 ^ 24 * 2 powi 104" using 2 by simp
  also have "\<dots> = 2 ^ 128" by simp
  finally show ?thesis using float32_repr [OF m lo] by (simp add: is_float32_def)
qed

lemma float32_pow2: "float32 (2 ^ k) = 2 ^ k"
  using float32_repr [of 1 "int k"] by simp

lemma np_trunc_of_int: "np_trunc (of_int z) = z"
  by (simp add: np_trunc_def)

lemma trunc_error: "\<bar>of_int (np_trunc x) - x\<bar> < 1"
proof (cases "0 \<le> x")
  case True
  have "of_int \<lfloor>x\<rfloor> \<le> x" "x < of_int \<lfloor>x\<rfloor> + 1"
    using floor_correct [of x] by simp_all
  then show ?thesis using True by (simp add: abs_less_iff np_trunc_def)
next
  case False
  have "of_int \<lceil>x\<rceil> - 1 < x" "x \<le> of_int \<lceil>x\<rceil>"
    using ceiling_correct [of x] by simp_all
  then show ?thesis using False by (simp add: abs_less_iff np_trunc_def)
qed

lemma np_trunc_abs_le: "\<bar>np_trunc x\<bar> \<le> \<lfloor>\<bar>x\<bar>\<rfloor>"
proof (cases "0 \<le> x")
  case True
  then show ?thesis by (simp add: np_trunc_def)
next
  case False
  then have "\<lceil>x\<rceil> \<le> 0" by (simp add: ceiling_le_iff)
  then have "\<bar>\<lceil>x\<rceil>\<bar> = - \<lceil>x\<rceil>" by simp
  also have "\<dots> = \<lfloor>- x\<rfloor>" by (simp add: ceiling_def)
  finally show ?thesis using False by (simp add: np_trunc_def)
qed

lemma np_trunc_repr:
  assumes m: "\<bar>m\<bar> < 2 ^ 24"
  shows "\<exists>m' j. np_trunc (of_int m * 2 powi e) = m' * 2 ^ j \<and> \<bar>m'\<bar> < 2 ^ 24"
proof (cases "0 \<le> e")
  case True
  then have "(of_int m :: rat) * 2 powi e = of_int (m * 2 ^ nat e)"
    by (simp add: power_int_nonneg_exp)
  then have "np_trunc (of_int m * 2 powi e) = m * 2 ^ nat e" by (simp only: np_trunc_of_int)
  with m show ?thesis by blast
next
  case False
  define x where "x = (of_int m :: rat) * 2 powi e"
  have "(2::rat) powi e \<le> 2 powi 0" using False by (intro power_int_increasing) simp_all
  then have "(2::rat) powi e \<le> 1" by simp
  moreover have "\<bar>x\<bar> = of_int \<bar>m\<bar> * 2 powi e" by (simp add: x_def abs_mult)
  ultimately have "\<bar>x\<bar> \<le> of_int \<bar>m\<bar>"
    by (simp add: mult_left_le)
  then have "\<lfloor>\<bar>x\<bar>\<rfloor> \<le> \<bar>m\<bar>" by (simp add: floor_le_iff)
  then have "\<bar>np_trunc x\<bar> < 2 ^ 24" using np_trunc_abs_le [of x] m by linarith
  moreover have "np_trunc x = np_trunc x * 2 ^ 0" by simp
  ultimately show ?thesis unfolding x_def by blast
qed


lemma float32_eval:
  assumes "- 149 \<le> e" "e \<le> 104" "e = - 149 \<or> 2 powi (e + 23) \<le> \<bar>x\<bar>"
    "e = 104 \<or> \<bar>x\<bar> < 2 powi (e + 24)"
  shows "float32 x = of_int (rne (x / 2 powi e)) * 2 powi e"
  unfolding float32_def using assms by (intro fl_eval) (auto simp: add.commute)

lemma rne_eval:
  assumes "of_int f \<le> x" "x < of_int f + 1"
  shows "rne x = (if x - of_int f < 1 / 2 then f
                  else if 1 / 2 < x - of_int f then f + 1 else if even f then f else f + 1)"
proof -
  have "\<lfloor>x\<rfloor> = f" using assms by (intro floor_unique) simp_all
  then show ?thesis by (simp add: rne_def)
qed

lemma quantize_pow2:
  assumes v: "is_float32 v"
  shows "quantize v (2 ^ k) = astype_int32 (v * 2 ^ k)"
proof -
  from is_float32_decomp [OF v] obtain m e
    where me: "v = of_int m * 2 powi e" "\<bar>m\<bar> < 2 ^ 24" "- 149 \<le> e" by blast
  have xr: "v * 2 ^ k = of_int m * 2 powi (e + int k)"
    by (simp add: me(1) power_int_add)
  have "float32 (v * 2 ^ k) = v * 2 ^ k"
    unfolding xr using me(2,3) by (intro float32_repr) simp_all
  then show ?thesis by (simp add: quantize_def float32_pow2)
qed

lemma dequantize_pow2:
  assumes m: "\<bar>m\<bar> < 2 ^ 24" and k: "k \<le> 149"
  shows "dequantize (m * 2 ^ j) (2 ^ k) = of_int (m * 2 ^ j) / 2 ^ k"
proof -
  have qr: "(of_int (m * 2 ^ j) :: rat) = of_int m * 2 powi (int j)" by simp
  have fq: "float32 (of_int (m * 2 ^ j)) = of_int (m * 2 ^ j)"
    unfolding qr using m by (intro float32_repr) simp_all
  have dr: "(of_int (m * 2 ^ j) :: rat) / 2 ^ k = of_int m * 2 powi (int j - int k)"
    by (simp add: power_int_diff)
  have fd: "float32 (of_int (m * 2 ^ j) / 2 ^ k) = of_int (m * 2 ^ j) / 2 ^ k"
    unfolding dr using m k by (intro float32_repr) simp_all
  show ?thesis by (simp only: dequantize_def of_int_power of_int_numeral float32_pow2 fq fd)
qed

lemma astype_int32_repr:
  assumes v: "is_float32 v"
  shows "\<exists>m j. astype_int32 (v * 2 ^ k) = m * 2 ^ j \<and> \<bar>m\<bar> < 2 ^ 24"
proof -
  from is_float32_decomp [OF v] obtain m e
    where me: "v = of_int m * 2 powi e" "\<bar>m\<bar> < 2 ^ 24" "- 149 \<le> e" by blast
  have xr: "v * 2 ^ k = of_int m * 2 powi (e + int k)"
    by (simp add: me(1) power_int_add)
  show ?thesis
  proof (cases "- (2 ^ 31) - 1 < v * 2 ^ k \<and> v * 2 ^ k < 2 ^ 31")
    case True
    then have "astype_int32 (v * 2 ^ k) = np_trunc (of_int m * 2 powi (e + int k))"
      by (simp add: astype_int32_def xr)
    then show ?thesis using np_trunc_repr [OF me(2), of "e + int k"] by simp
  next
    case False
    then have "astype_int32 (v * 2 ^ k) = - (2 ^ 31)" by (auto simp: astype_int32_def)
    then have "astype_int32 (v * 2 ^ k) = (- 1) * 2 ^ 31" by simp
    moreover have "\<bar>- 1 :: int\<bar> < 2 ^ 24" by simp
    ultimately show ?thesis by blast
  qed
qed

lemma float32_7_10: "float32 (7 / 10) = 11744051 / 16777216"
proof -
  have e: "float32 (7 / 10) = of_int (rne (7 / 10 / 2 powi (- 24))) * 2 powi (- 24)"
    by (rule float32_eval) simp_all
  have r: "rne (7 / 10 / 2 powi (- 24)) = 11744051"
    using rne_eval [of 11744051 "7 / 10 / 2 powi (- 24)"] by simp
  show ?thesis unfolding e r by simp
qed

lemma float32_16777217: "float32 16777217 = 16777216"
proof -
  have e: "float32 16777217 = of_int (rne (16777217 / 2 powi 1)) * 2 powi 1"
    by (rule float32_eval) simp_all
  have r: "rne (16777217 / 2 powi 1) = 8388608"
    using rne_eval [of 8388608 "16777217 / 2 powi 1"] by simp
  show ?thesis unfolding e r by simp
qed

lemma float32_tiny: "float32 (1 / 2 ^ 200) = 0"
proof -
  have e: "float32 (1 / 2 ^ 200) = of_int (rne (1 / 2 ^ 200 / 2 powi (- 149))) * 2 powi (- 149)"
    by (rule float32_eval) simp_all
  have r: "rne (1 / 2 ^ 200 / 2 powi (- 149)) = 0"
    using rne_eval [of 0 "1 / 2 ^ 200 / 2 powi (- 149)"] by simp
  show ?thesis unfolding e r by simp
qed

lemma float64_tiny: "float64 (1 / 2 ^ 100 * (1 / 2 ^ 100)) = 1 / 2 ^ 200"
  using fl_repr [of 1 53 "- 1074" "- 200" 2045] by (simp add: float64_def)

text \<open>
  With a scale factor that is not a power of two the rounding of the product and of the
  quotient shows: at the factor 10 the float32 nearest to 0.7 is scaled to 7 although
  its exact product with 10 is below 7, and at the factor 100 the round trip of the
  float32 \<open>8503951 / 524288\<close> is off by more than \<open>1 / 100\<close>.
\<close>

lemma scale_10: "quantize (float32 (7 / 10)) 10 = 7 \<and> \<lfloor>float32 (7 / 10) * 10\<rfloor> = 6"
proof -
  have 1: "float32 10 = 10" using float32_repr [of 10 0] by simp
  have e: "float32 (11744051 / 16777216 * 10)
           = of_int (rne (11744051 / 16777216 * 10 / 2 powi (- 21))) * 2 powi (- 21)"
    by (rule float32_eval) simp_all
  have r: "rne (11744051 / 16777216 * 10 / 2 powi (- 21)) = 14680064"
    using rne_eval [of 14680063 "11744051 / 16777216 * 10 / 2 powi (- 21)"] by simp
  have 2: "float32 (11744051 / 16777216 * 10) = 7" unfolding e r by simp
  have 3: "\<lfloor>11744051 / 16777216 * 10 :: rat\<rfloor> = 6" by (simp add: floor_eq_iff)
  show ?thesis
    by (simp only: quantize_def float32_7_10 of_int_numeral 1 2 3) (simp add: astype_int32_def np_trunc_def)
qed

lemma scale_100:
  "is_float32 (8503951 / 524288) \<and> quantize (8503951 / 524288) 100 = 1621
   \<and> dequantize 1621 100 = 2124677 / 131072
   \<and> \<not> (\<bar>dequantize 1621 100 - 8503951 / 524288\<bar> < 1 / 100)"
proof -
  have f: "is_float32 (8503951 / 524288)" using is_float32I [of 8503951 "- 19"] by simp
  have 1: "float32 100 = 100" using float32_repr [of 100 0] by simp
  have e: "float32 (8503951 / 524288 * 100)
           = of_int (rne (8503951 / 524288 * 100 / 2 powi (- 13))) * 2 powi (- 13)"
    by (rule float32_eval) simp_all
  have r: "rne (8503951 / 524288 * 100 / 2 powi (- 13)) = 13287423"
    using rne_eval [of 13287423 "8503951 / 524288 * 100 / 2 powi (- 13)"] by simp
  have 2: "float32 (8503951 / 524288 * 100) = 13287423 / 8192" unfolding e r by simp
  have 3: "astype_int32 (13287423 / 8192) = 1621"
    by (simp add: astype_int32_def np_trunc_def floor_eq_iff)
  have q: "quantize (8503951 / 524288) 100 = 1621"
    by (simp only: quantize_def of_int_numeral 1 2 3)
  have 4: "float32 1621 = 1621" using float32_repr [of 1621 0] by simp
  have e': "float32 (1621 / 100) = of_int (rne (1621 / 100 / 2 powi (- 19))) * 2 powi (- 19)"
    by (rule float32_eval) simp_all
  have r': "rne (1621 / 100 / 2 powi (- 19)) = 8498708"
    using rne_eval [of 8498708 "1621 / 100 / 2 powi (- 19)"] by simp
  have 5: "float32 (1621 / 100) = 2124677 / 131072" unfolding e' r' by simp
  have d: "dequantize 1621 100 = 2124677 / 131072"
    by (simp only: dequantize_def of_int_numeral 1 4 5)
  have n: "\<not> (\<bar>2124677 / 131072 - 8503951 / 524288 :: rat\<bar> < 1 / 100)" by simp
  show ?thesis using f q d n by simp
qed

section \<open>Lemmas: when the two generators agree\<close>

lemma fst_in_zip: "t \<in> set (zip xs ys) \<Longrightarrow> fst t \<in> set xs"
  by (cases t) (auto dest: set_zip_leftD)

lemma raw_all_out_products:
  assumes "t \<in> set (raw_all_out ops A AT)"
  shows "\<exists>a v. fst t = fmul ops a v"
proof -
  from assms obtain i where "t \<in> set (raw_row_out ops A AT i)"
    by (auto simp: raw_all_out_def)
  then obtain k a where "t \<in> set (raw_entry_out ops AT i k a)"
    by (auto simp: raw_row_out_def)
  then have "fst t \<in> set (map (fmul ops a) (csr_row_vals AT (nat k)))"
    unfolding raw_entry_out_def by (rule fst_in_zip)
  then show ?thesis by auto
qed

lemma generators_agree:
  assumes vA: "valid_csr A" and vT: "valid_csr AT" and dims: "shape_rows AT = shape_cols A"
    and cs: "0 < chunk_size"
    and keep: "\<And>a v. fnonzero ops (fcast ops (fmul ops a v)) = fnonzero ops (fmul ops a v)"
  shows "\<exists>rows. produce_products_scipy_optimized ops A AT = Inr rows
           \<and> produce_products_stream_scipy_optimized ops A AT chunk_size
               = Some (Inr (int (length rows), rows))"
proof -
  define raw where "raw = raw_all_out ops A AT"
  have same: "fnonzero ops (fst (cast_triple (fcast ops) t)) = fnonzero ops (fst t)"
    if "t \<in> set raw" for t
    using raw_all_out_products [of t ops A AT] that keep by (auto simp: raw_def cast_triple_def)
  have "filter (\<lambda>t. fnonzero ops (fst t)) (all_out ops A AT)
        = map (cast_triple (fcast ops))
            (filter (\<lambda>t. fnonzero ops (fst (cast_triple (fcast ops) t))) raw)"
    by (simp add: all_out_cast raw_def filter_map comp_def)
  also have "filter (\<lambda>t. fnonzero ops (fst (cast_triple (fcast ops) t))) raw
        = filter (\<lambda>t. fnonzero ops (fst t)) raw"
    by (rule filter_cong [OF refl]) (rule same)
  finally have eq: "filter (\<lambda>t. fnonzero ops (fst t)) (all_out ops A AT)
        = map (cast_triple (fcast ops)) (filter (\<lambda>t. fnonzero ops (fst t)) raw)" .
  show ?thesis
    using produce_products_valid [OF vA vT dims, of ops]
      produce_products_stream_valid [OF vA vT dims cs, of ops]
    by (simp add: eq raw_def)
qed

lemma float32_generators_agree:
  assumes "valid_csr A" and "valid_csr AT" and "shape_rows AT = shape_cols A"
    and "0 < chunk_size"
  shows "\<exists>rows. produce_products_scipy_optimized f32_ops A AT = Inr rows
           \<and> produce_products_stream_scipy_optimized f32_ops A AT chunk_size
               = Some (Inr (int (length rows), rows))"
  using assms by (rule generators_agree) (simp add: f32_ops_def float32_idem)

lemma tiny_A_valid: "valid_csr tiny_A \<and> shape_rows tiny_A = shape_cols tiny_A"
  by (simp add: valid_csr_def tiny_A_def)

lemma tiny_product:
  "fmul f64_ops (1 / 2 ^ 100) (1 / 2 ^ 100) = 1 / 2 ^ 200
   \<and> fcast f64_ops (1 / 2 ^ 200) = 0"
  by (simp only: f64_ops_def numerics.simps float64_tiny float32_tiny)

lemma tiny_raw_all_out:
  "raw_all_out f64_ops tiny_A tiny_A = [(fmul f64_ops (1 / 2 ^ 100) (1 / 2 ^ 100), 0, 0)]"
  by (simp add: raw_all_out_def raw_row_out_def raw_entry_out_def csr_row_cols_def
      csr_row_vals_def row_lo_def row_hi_def tiny_A_def)

section \<open>Lemmas: closed evaluations of the generators\<close>

lemmas gen_eval = estimate_products_def nnz_def np_getitem_def np_diff_def wrap_int64_def
  prealloc_traverse_def np_empty_def prealloc_row_def prealloc_entry_def np_slice_def
  slice_bound_def int_ops_def produce_products_scipy_optimized_def np_setslice_def np_fill_def
  np_slice_to_def column_stack_def np_mask_def

lemma end_to_end_scenario:
  "estimate_products diag_A diag_A = Inr 2"
  "produce_products_scipy_optimized int_ops diag_A diag_A = Inr [(4, 0, 0), (9, 1, 1)]"
  "produce_products_stream_scipy_optimized int_ops diag_A diag_A 4
     = Some (Inr (2, [(4, 0, 0), (9, 1, 1)]))"
  by code_simp+

lemma fan_out_scenario:
  "estimate_products fan_A fan_AT = Inr 2"
  "produce_products_scipy_optimized int_ops fan_A fan_AT = Inr [(5, 0, 0), (14, 0, 0)]"
  "produce_products_stream_scipy_optimized int_ops fan_A fan_AT 1
     = Some (Inr (2, [(5, 0, 0), (14, 0, 0)]))"
  by code_simp+

lemma scenario_inputs_valid: "valid_csr wide_A" "valid_csr narrow_AT"
  by (simp_all add: valid_csr_def wide_A_def narrow_AT_def)

lemma negative_index_counts_differ:
  "estimate_products neg_A narrow_AT = Inr 1
   \<and> map_sum id (\<lambda>(n, st). (n, write_pos st)) (prealloc_traverse int_ops neg_A narrow_AT) = Inr (1, 0)
   \<and> produce_products_scipy_optimized int_ops neg_A narrow_AT = Inr []"
  by code_simp


lemmas verifier_eval = compare_recommendations_def merge_outer_def common_rows_def
  uncommon_rows_def mismatched_ratings_def rating_diff_def exceeds_def source_file_def Let_def

lemmas report_eval = build_report_def merge_outer_def isclose_def fillna0_def TOL_def Let_def


section \<open>Lemmas: the outer join and the report\<close>

lemma merge_outer_join_rows: "merge_outer L R = concat (map (join_rows L R) (join_keys L R))"
  by (simp only: merge_outer_def join_rows_def [abs_def] join_keys_def)

lemma join_rows_key: "r \<in> set (join_rows L R k) \<Longrightarrow> fst r = k"
  by (auto simp: join_rows_def Let_def split: if_splits)

lemma join_rows_both:
  "r \<in> set (join_rows L R k) \<Longrightarrow> snd (snd (snd r)) = both \<Longrightarrow>
   k \<in> fst ` set L \<and> k \<in> fst ` set R"
  by (auto simp: join_rows_def Let_def filter_empty_conv split: if_splits intro: rev_image_eqI)

lemma merge_outer_both:
  assumes "r \<in> set (merge_outer L R)" "snd (snd (snd r)) = both"
  shows "fst r \<in> fst ` set L \<and> fst r \<in> fst ` set R"
proof -
  from assms(1) obtain k where k: "r \<in> set (join_rows L R k)"
    by (auto simp: merge_outer_join_rows)
  then have "fst r = k" by (rule join_rows_key)
  then show ?thesis using join_rows_both [OF k assms(2)] by simp
qed

lemma set_join_keys: "set (join_keys L R) = fst ` set L \<union> fst ` set R"
  by (simp add: join_keys_def)

lemma distinct_join_keys: "distinct (join_keys L R)"
  by (simp add: join_keys_def)

lemma filter_join_rows:
  "filter (\<lambda>r. fst r = k) (join_rows L R k') = (if k' = k then join_rows L R k else [])"
  by (auto simp: filter_empty_conv filter_id_conv dest: join_rows_key)

lemma filter_concat_join:
  "distinct ks \<Longrightarrow>
   filter (\<lambda>r. fst r = k) (concat (map (join_rows L R) ks))
   = (if k \<in> set ks then join_rows L R k else [])"
proof (induction ks)
  case Nil
  then show ?case by simp
next
  case (Cons k' ks)
  then show ?case by (auto simp: filter_join_rows)
qed

lemma filter_merge_outer:
  "filter (\<lambda>r. fst r = k) (merge_outer L R)
   = (if k \<in> fst ` set L \<union> fst ` set R then join_rows L R k else [])"
  by (simp only: merge_outer_join_rows filter_concat_join [OF distinct_join_keys] set_join_keys)

lemma filter_key_distinct:
  "distinct (map fst xs) \<Longrightarrow> (k, v) \<in> set xs \<Longrightarrow> filter (\<lambda>r. fst r = k) xs = [(k, v)]"
proof (induction xs)
  case Nil
  then show ?case by simp
next
  case (Cons x xs)
  show ?case
  proof (cases "fst x = k")
    case True
    then have "k \<notin> fst ` set xs" using Cons.prems(1) by auto
    then have "filter (\<lambda>r. fst r = k) xs = []" by (auto simp: filter_empty_conv)
    moreover have "x = (k, v)" using Cons.prems True \<open>k \<notin> fst ` set xs\<close> by (cases x) force
    ultimately show ?thesis by simp
  next
    case False
    then show ?thesis using Cons by auto
  qed
qed

lemma filter_key_absent: "k \<notin> fst ` set xs \<Longrightarrow> filter (\<lambda>r. fst r = k) xs = []"
  by (auto simp: filter_empty_conv)

lemma report_filter:
  "filter (\<lambda>r. (fst r, fst (snd r)) = k) (build_report sw hw)
   = sort_key (\<lambda>r. (fst r, fst (snd r)))
       (map (\<lambda>(k, g, h, m).
               (fst k, snd k, fillna0 g, fillna0 h,
                if isclose (fillna0 g) (fillna0 h) (1 / 10 ^ 5) TOL then 1 else 0))
            (filter (\<lambda>r. fst r = k) (merge_outer sw hw)))"
proof -
  have "filter (\<lambda>r. (fst r, fst (snd r)) = k)
          (map (\<lambda>(k, g, h, m).
               (fst k, snd k, fillna0 g, fillna0 h,
                if isclose (fillna0 g) (fillna0 h) (1 / 10 ^ 5) TOL then (1::int) else 0))
            (merge_outer sw hw))
        = map (\<lambda>(k, g, h, m).
               (fst k, snd k, fillna0 g, fillna0 h,
                if isclose (fillna0 g) (fillna0 h) (1 / 10 ^ 5) TOL then 1 else 0))
            (filter (\<lambda>r. fst r = k) (merge_outer sw hw))"
    by (simp add: filter_map comp_def case_prod_beta prod_eq_iff)
  then show ?thesis
    by (simp only: build_report_def filter_sort)
qed


lemma mismatched_ratings_both:
  "r \<in> set (mismatched_ratings tol merged) \<Longrightarrow> r \<in> set merged \<and> snd (snd (snd r)) = both"
  by (simp add: mismatched_ratings_def common_rows_def)

lemma build_report_one_sided_key:
  assumes "distinct (map fst sw)" and "distinct (map fst hw)"
  shows "((k, g) \<in> set sw \<and> k \<notin> fst ` set hw \<longrightarrow>
            filter (\<lambda>r. (fst r, fst (snd r)) = k) (build_report sw hw)
            = [(fst k, snd k, g, 0, if \<bar>g\<bar> \<le> TOL then 1 else 0)])
         \<and> ((k, h) \<in> set hw \<and> k \<notin> fst ` set sw \<longrightarrow>
            filter (\<lambda>r. (fst r, fst (snd r)) = k) (build_report sw hw)
            = [(fst k, snd k, 0, h, if \<bar>h\<bar> \<le> TOL + \<bar>h\<bar> / 10 ^ 5 then 1 else 0)])"
proof (intro conjI impI)
  assume a: "(k, g) \<in> set sw \<and> k \<notin> fst ` set hw"
  then have kin: "k \<in> fst ` set sw \<union> fst ` set hw" by force
  have l: "filter (\<lambda>r. fst r = k) sw = [(k, g)]"
    using filter_key_distinct [OF assms(1)] a by simp
  have r: "filter (\<lambda>r. fst r = k) hw = []"
    using a by (simp add: filter_key_absent)
  have "join_rows sw hw k = [(k, Some g, None, left_only)]"
    by (simp add: join_rows_def l r)
  then have "filter (\<lambda>r. fst r = k) (merge_outer sw hw) = [(k, Some g, None, left_only)]"
    using kin by (simp only: filter_merge_outer if_True)
  then show "filter (\<lambda>r. (fst r, fst (snd r)) = k) (build_report sw hw)
            = [(fst k, snd k, g, 0, if \<bar>g\<bar> \<le> TOL then 1 else 0)]"
    by (simp add: report_filter isclose_def fillna0_def)
next
  assume a: "(k, h) \<in> set hw \<and> k \<notin> fst ` set sw"
  then have kin: "k \<in> fst ` set sw \<union> fst ` set hw" by force
  have r: "filter (\<lambda>r. fst r = k) hw = [(k, h)]"
    using filter_key_distinct [OF assms(2)] a by simp
  have l: "filter (\<lambda>r. fst r = k) sw = []"
    using a by (simp add: filter_key_absent)
  have "join_rows sw hw k = [(k, None, Some h, right_only)]"
    by (simp add: join_rows_def l r)
  then have "filter (\<lambda>r. fst r = k) (merge_outer sw hw) = [(k, None, Some h, right_only)]"
    using kin by (simp only: filter_merge_outer if_True)
  then show "filter (\<lambda>r. (fst r, fst (snd r)) = k) (build_report sw hw)
            = [(fst k, snd k, 0, h, if \<bar>h\<bar> \<le> TOL + \<bar>h\<bar> / 10 ^ 5 then 1 else 0)]"
    by (simp add: report_filter isclose_def fillna0_def)
qed

section \<open>Lemmas: column resolution\<close>

lemma alias_disjoint:
  "c \<in> set user_aliases \<Longrightarrow> c \<notin> set item_aliases"
  "c \<in> set user_aliases \<Longrightarrow> c \<notin> set rating_aliases"
  "c \<in> set item_aliases \<Longrightarrow> c \<notin> set rating_aliases"
  by (auto simp: user_aliases_def item_aliases_def rating_aliases_def)

lemma last_match_Nil: "last_match P [] d = d"
  by (simp add: last_match_def)

lemma last_match_Cons:
  "last_match P (c # cols) d = last_match P cols (if P c then Some c else d)"
  by (cases "filter P cols") (simp_all add: last_match_def)

lemma scan_column_cases:
  "c \<in> set user_aliases \<Longrightarrow> scan_column c (u, i, r) = (Some c, i, r)"
  "c \<notin> set user_aliases \<Longrightarrow> c \<in> set item_aliases \<Longrightarrow> scan_column c (u, i, r) = (u, Some c, r)"
  "c \<notin> set user_aliases \<Longrightarrow> c \<notin> set item_aliases \<Longrightarrow> c \<in> set rating_aliases \<Longrightarrow>
     scan_column c (u, i, r) = (u, i, Some c)"
  "c \<notin> set user_aliases \<Longrightarrow> c \<notin> set item_aliases \<Longrightarrow> c \<notin> set rating_aliases \<Longrightarrow>
     scan_column c (u, i, r) = (u, i, r)"
  by (simp_all add: scan_column_def)

lemma scan_fold:
  "fold scan_column cols (u, i, r)
   = (last_match (\<lambda>c. c \<in> set user_aliases) cols u,
      last_match (\<lambda>c. c \<in> set item_aliases) cols i,
      last_match (\<lambda>c. c \<in> set rating_aliases) cols r)"
proof (induction cols arbitrary: u i r)
  case Nil
  show ?case by (simp add: last_match_Nil)
next
  case (Cons c cols)
  consider (user) "c \<in> set user_aliases"
    | (item) "c \<notin> set user_aliases" "c \<in> set item_aliases"
    | (rating) "c \<notin> set user_aliases" "c \<notin> set item_aliases" "c \<in> set rating_aliases"
    | (other) "c \<notin> set user_aliases" "c \<notin> set item_aliases" "c \<notin> set rating_aliases"
    by blast
  then show ?case
  proof cases
    case user
    then show ?thesis
      using alias_disjoint(1,2) [OF user]
      by (simp only: fold_Cons comp_apply scan_column_cases(1) [OF user] Cons.IH last_match_Cons if_True if_False)
  next
    case item
    then show ?thesis
      using alias_disjoint(3) [OF item(2)]
      by (simp only: fold_Cons comp_apply scan_column_cases(2) [OF item] Cons.IH last_match_Cons if_True if_False)
  next
    case rating
    then show ?thesis
      by (simp only: fold_Cons comp_apply scan_column_cases(3) [OF rating] Cons.IH last_match_Cons if_True if_False)
  next
    case other
    then show ?thesis
      by (simp only: fold_Cons comp_apply scan_column_cases(4) [OF other] Cons.IH last_match_Cons if_True if_False)
  qed
qed

lemma last_match_None:
  "last_match P cols None = (if filter P cols = [] then None else Some (last (filter P cols)))"
  by (simp add: last_match_def split: list.splits)

section \<open>Lemmas: the reference loader\<close>

lemma set_first_seen: "set (first_seen ks) = set ks"
  by (induction ks) auto

lemma distinct_first_seen: "distinct (first_seen ks)"
  by (induction ks) (auto simp: set_first_seen)

lemma keys_groupby_sum: "map fst (groupby_sum kvs) = first_seen (map fst kvs)"
  by (simp add: groupby_sum_def comp_def)

lemma groupby_sum_value:
  "(k, g) \<in> set (groupby_sum kvs) \<Longrightarrow> g = sum_list (map snd (filter (\<lambda>kv. fst kv = k) kvs))"
  by (auto simp: groupby_sum_def)

lemma kept_idem: "kept (filter (\<lambda>(i, j, p). i \<noteq> 1 / 2) rows) = kept rows"
  by (simp add: kept_def)

lemma keys_kept:
  "fst ` set (kept rows) = {(i, j) | i j p. (i, j, p) \<in> set rows \<and> i \<noteq> 1 / 2}"
  by (force simp: kept_def)

lemma filter_kept:
  assumes "fst k \<noteq> 1 / 2"
  shows "map snd (filter (\<lambda>kv. fst kv = k) (kept rows))
         = map (\<lambda>(i, j, p). p) (filter (\<lambda>(i, j, p). (i, j) = k) rows)"
  using assms by (induction rows) (auto simp: kept_def)

section \<open>Claims\<close>

text \<open>
  C1. For valid CSR matrices \<open>A\<close> and \<open>AT\<close> where \<open>AT\<close> has one row per column of
  \<open>A\<close> (as the transpose of \<open>A\<close> has), the estimator returns a count \<open>n\<close>, the
  pre-allocated traversal runs to its end without an error on arrays of that size, and
  its final write cursor is \<open>n\<close>: the number of triples written before the zero filter
  equals the estimate. The count is the number of pairs of a stored entry \<open>(i, k)\<close> of
  \<open>A\<close> and a stored entry of row \<open>k\<close> of \<open>AT\<close>, and the three arrays, which have
  exactly \<open>n\<close> cells, hold one triple for each such pair in the order of the traversal:
  the product of the two values converted to float32, the row \<open>i\<close>, and the column of the
  entry of \<open>AT\<close>.
\<close>

theorem estimate_equals_write_cursor:
  fixes A :: "'a csr_matrix" and AT :: "'a csr_matrix"
  assumes "valid_csr A" and "valid_csr AT" and "shape_rows AT = shape_cols A"
  shows "\<exists>n st. estimate_products A AT = Inr n
            \<and> prealloc_traverse ops A AT = Inr (n, st) \<and> write_pos st = n
            \<and> n = int (sum_list (map (row_count AT) (indices A)))
            \<and> length (products st) = nat n \<and> length (i_indices st) = nat n
            \<and> length (j_indices st) = nat n
            \<and> zip (products st) (zip (i_indices st) (j_indices st)) = all_out ops A AT"
proof -
  define T where "T = length (all_out ops A AT)"
  from prealloc_traverse_valid [OF assms, of ops] obtain st
    where st: "prealloc_traverse ops A AT = Inr (int T, st)" "write_pos st = int T"
      "pre_inv T st" "written st = all_out ops A AT"
    unfolding T_def by blast
  have len: "length (products st) = T" "length (i_indices st) = T" "length (j_indices st) = T"
    using st(3) by (simp_all add: pre_inv_def)
  have est: "estimate_products A AT = Inr (int T)"
    unfolding T_def by (rule estimate_products_valid [OF assms])
  have cnt: "int T = int (sum_list (map (row_count AT) (indices A)))"
    unfolding T_def by (simp only: length_all_out [OF assms])
  have "zip (products st) (zip (i_indices st) (j_indices st)) = written st"
    by (simp add: written_def st(2) len)
  then have all: "zip (products st) (zip (i_indices st) (j_indices st)) = all_out ops A AT"
    by (simp only: st(4))
  show ?thesis
    using est st(1,2) cnt len all by (intro exI [of _ "int T"] exI [of _ st]) simp
qed

theorem estimate_equals_write_cursor_witness:
  "valid_csr diag_A \<and> shape_rows diag_A = shape_cols diag_A
   \<and> (\<exists>st. estimate_products diag_A diag_A = Inr 2
          \<and> prealloc_traverse int_ops diag_A diag_A = Inr (2, st) \<and> write_pos st = 2
          \<and> products st = [4, 9] \<and> i_indices st = [0, 1] \<and> j_indices st = [0, 1])"
proof -
  have v: "valid_csr diag_A" by (simp add: valid_csr_def diag_A_def)
  have d: "shape_rows diag_A = shape_cols diag_A" by (simp add: diag_A_def)
  have c: "int (sum_list (map (row_count diag_A) (indices diag_A))) = 2"
    by (simp add: row_count_def row_lo_def row_hi_def diag_A_def)
  have o: "all_out int_ops diag_A diag_A = [(4, 0, 0), (9, 1, 1)]"
    by code_simp
  from estimate_equals_write_cursor [OF v v d, of int_ops] obtain n st
    where r: "estimate_products diag_A diag_A = Inr n"
      "prealloc_traverse int_ops diag_A diag_A = Inr (n, st)" "write_pos st = n"
      "n = int (sum_list (map (row_count diag_A) (indices diag_A)))"
      "length (products st) = nat n" "length (i_indices st) = nat n"
      "length (j_indices st) = nat n"
      "zip (products st) (zip (i_indices st) (j_indices st)) = all_out int_ops diag_A diag_A"
    by blast
  have n: "n = 2" using r(4) c by simp
  have l: "length (products st) = 2" "length (i_indices st) = 2" "length (j_indices st) = 2"
    using r(5,6,7) n by simp_all
  have z: "zip (products st) (zip (i_indices st) (j_indices st)) = [(4, 0, 0), (9, 1, 1)]"
    using r(8) o by simp
  have "map fst (zip (products st) (zip (i_indices st) (j_indices st))) = products st"
    using l by (simp add: map_fst_zip)
  then have p: "products st = [4, 9]" by (simp add: z)
  have s: "map snd (zip (products st) (zip (i_indices st) (j_indices st)))
           = zip (i_indices st) (j_indices st)"
    using l by (simp add: map_snd_zip)
  then have zz: "zip (i_indices st) (j_indices st) = [(0, 0), (1, 1)]" by (simp add: z)
  have "map fst (zip (i_indices st) (j_indices st)) = i_indices st"
    using l by (simp add: map_fst_zip)
  then have i: "i_indices st = [0, 1]" by (simp add: zz)
  have "map snd (zip (i_indices st) (j_indices st)) = j_indices st"
    using l by (simp add: map_snd_zip)
  then have j: "j_indices st = [0, 1]" by (simp add: zz)
  show ?thesis
    using v d r(1,2,3) n p i j by auto
qed

text \<open>
  C2. The claim asks the two generators for the same zero-filtered triples on every
  valid CSR matrix. On the 1 by 1 float64 matrix \<open>tiny_A\<close> (entry \<open>2 ^ -100\<close>, its own
  transpose) they differ. The product \<open>2 ^ -200\<close> is a nonzero float64 that becomes 0.0
  in float32. The pre-allocated generator stores it into its float32 array and filters
  what it reads back, so it returns no triple; the streaming generator filters the
  float64 product and converts it when it stores it into the buffer, so it writes the
  row \<open>(0.0, 0, 0)\<close> and returns the count 1. The description of the module, \<^verbatim>\<open>Outputs
  only non-zero products to CSV files\<close>, is what the streaming generator breaks. For
  float32 matrices, as \<^verbatim>\<open>main\<close> loads them, the two generators write the same rows for
  every positive chunk size (lemma \<open>float32_generators_agree\<close>).
\<close>

theorem stream_writes_zero_product:
  "data tiny_A = [1 / 2 ^ 100]
   \<and> fmul f64_ops (1 / 2 ^ 100) (1 / 2 ^ 100) = 1 / 2 ^ 200
   \<and> fcast f64_ops (1 / 2 ^ 200) = 0
   \<and> produce_products_scipy_optimized f64_ops tiny_A tiny_A = Inr []
   \<and> produce_products_stream_scipy_optimized f64_ops tiny_A tiny_A 2000000
       = Some (Inr (1, [(0, 0, 0)]))"
proof -
  have v: "valid_csr tiny_A" and d: "shape_rows tiny_A = shape_cols tiny_A"
    using tiny_A_valid by simp_all
  have raw: "raw_all_out f64_ops tiny_A tiny_A = [(1 / 2 ^ 200, 0, 0)]"
    by (simp only: tiny_raw_all_out tiny_product)
  have nz: "fnonzero f64_ops x = (x \<noteq> 0)" for x by (simp add: f64_ops_def)
  have flt: "filter (\<lambda>t. fnonzero f64_ops (fst t)) [(1 / 2 ^ 200, 0::int, 0::int)]
             = [(1 / 2 ^ 200, 0, 0)]"
    by (simp add: nz)
  have ct: "map (cast_triple (fcast f64_ops)) [(1 / 2 ^ 200, 0::int, 0::int)] = [(0, 0, 0)]"
    by (simp only: list.map cast_triple_def fst_conv snd_conv tiny_product)
  have all: "all_out f64_ops tiny_A tiny_A = [(0, 0, 0)]"
    by (simp only: all_out_cast raw ct)
  have pre: "produce_products_scipy_optimized f64_ops tiny_A tiny_A = Inr []"
    by (simp only: produce_products_valid [OF v v d] all) (simp add: nz)
  have c: "(0::int) < 2000000" by simp
  have str: "produce_products_stream_scipy_optimized f64_ops tiny_A tiny_A 2000000
             = Some (Inr (1, [(0, 0, 0)]))"
    by (simp only: produce_products_stream_valid [OF v v d c] raw flt ct) simp
  have dt: "data tiny_A = [1 / 2 ^ 100]" by (simp add: tiny_A_def)
  show ?thesis
    by (rule conjI [OF dt conjI [OF conjunct1 [OF tiny_product]
          conjI [OF conjunct2 [OF tiny_product] conjI [OF pre str]]]])
qed

text \<open>
  C3 (as amended). The per-key comparison of the recommendation verifier counts a
  common key as a mismatch exactly when \<open>|reference - observed| > tolerance\<close>. For the
  reference value 4.0 and the observed value 4.0000005 the difference is 5e-7, so the
  key is matched (not a mismatch) with tolerance 1e-6 as well as with 1e-3; the RTL
  checker, whose tolerance is fixed at 1e-6, marks it \<open>match = 1\<close> too. The margin
  between 5e-7 and 1e-6 is far above the rounding error of double precision.
\<close>

theorem tolerance_example:
  "map_option rating_mismatch_count
     (compare_recommendations (Some [(k, g)]) (Some [(k, c)]) tol thr)
     = Some (if \<bar>g - c\<bar> > tol then 1 else 0)
   \<and> map_option rating_mismatch_count
       (compare_recommendations (Some [((0, 0), 4)]) (Some [((0, 0), 40000005 / 10000000)])
          (1 / 10 ^ 6) thr) = Some 0
   \<and> map_option rating_mismatch_count
       (compare_recommendations (Some [((0, 0), 4)]) (Some [((0, 0), 40000005 / 10000000)])
          (1 / 10 ^ 3) thr) = Some 0
   \<and> build_report [((0, 0), 4)] [((0, 0), 40000005 / 10000000)]
       = [(0, 0, 4, 40000005 / 10000000, 1)]"
  by (simp add: verifier_eval report_eval)

text \<open>
  The claim as stated has \<open>matched = 0\<close> at tolerance 1e-6; the code has no mismatch
  there, in either verifier.
\<close>

theorem tolerance_example_counterexample:
  "map_option rating_mismatch_count
     (compare_recommendations (Some [((0, 0), 4)]) (Some [((0, 0), 40000005 / 10000000)])
        (1 / 10 ^ 6) 5) = Some 0
   \<and> build_report [((0, 0), 4)] [((0, 0), 40000005 / 10000000)]
       = [(0, 0, 4, 40000005 / 10000000, 1)]"
  by (simp add: verifier_eval report_eval)

text \<open>
  C4 (as amended). For every finite float32 value \<open>v\<close> and every scale factor that is a
  power of two \<open>2 ^ k\<close> with \<open>k \<le> 62\<close> (the factor of the source is \<open>65536 = 2 ^ 16\<close>):
  when \<open>v * scale\<close> truncates into the int32 range the scaling returns \<open>v * scale\<close> with
  its fraction dropped (rounded towards zero, not to nearest), and otherwise it returns
  \<open>-2147483648\<close> (it neither saturates nor rejects); descaling the integer \<open>q\<close> that the
  scaling returned gives exactly \<open>q / scale\<close>; and in the first case the round trip
  differs from \<open>v\<close> by strictly less than \<open>1 / scale\<close>. With a power of two the
  float32 operations of the scaling are exact; with other factors they are not (lemmas
  \<open>scale_10\<close> and \<open>scale_100\<close>).
\<close>

theorem quantize_truncates:
  assumes v: "is_float32 v" and S: "scale_factor = 2 ^ k" and k: "k \<le> 62"
  shows "quantize v scale_factor =
           (if - (2 ^ 31) - 1 < v * of_int scale_factor \<and> v * of_int scale_factor < 2 ^ 31
            then np_trunc (v * of_int scale_factor) else - (2 ^ 31))
       \<and> dequantize (quantize v scale_factor) scale_factor
           = of_int (quantize v scale_factor) / of_int scale_factor
       \<and> (- (2 ^ 31) - 1 < v * of_int scale_factor \<and> v * of_int scale_factor < 2 ^ 31 \<longrightarrow>
            \<bar>dequantize (quantize v scale_factor) scale_factor - v\<bar> < 1 / of_int scale_factor)"
proof -
  define x where "x = v * 2 ^ k"
  define q where "q = quantize v scale_factor"
  have Sr: "(of_int scale_factor :: rat) = 2 ^ k" by (simp add: S)
  have qa: "q = astype_int32 x"
    unfolding q_def S x_def by (rule quantize_pow2 [OF v])
  have qv: "q = (if - (2 ^ 31) - 1 < x \<and> x < 2 ^ 31 then np_trunc x else - (2 ^ 31))"
    by (simp add: qa astype_int32_def)
  from astype_int32_repr [OF v, of k] obtain m j
    where mj: "q = m * 2 ^ j" "\<bar>m\<bar> < 2 ^ 24" unfolding qa x_def by blast
  have k': "k \<le> 149" using k by simp
  have deq: "dequantize q scale_factor = of_int q / 2 ^ k"
    unfolding mj(1) S by (rule dequantize_pow2 [OF mj(2) k'])
  have err: "\<bar>dequantize q scale_factor - v\<bar> < 1 / 2 ^ k"
    if r: "- (2 ^ 31) - 1 < x \<and> x < 2 ^ 31"
  proof -
    have "q = np_trunc x" using qv r by simp
    then have 1: "\<bar>of_int q - x\<bar> < 1" using trunc_error [of x] by simp
    have "of_int q / 2 ^ k - v = (of_int q - x) / 2 ^ k"
      by (simp add: x_def diff_divide_distrib)
    then have "\<bar>of_int q / 2 ^ k - v\<bar> = \<bar>of_int q - x\<bar> / 2 ^ k" by simp
    also have "\<dots> < 1 / 2 ^ k" using 1 by (simp add: divide_strict_right_mono)
    finally show ?thesis by (simp add: deq)
  qed
  have c1: "quantize v scale_factor =
           (if - (2 ^ 31) - 1 < v * of_int scale_factor \<and> v * of_int scale_factor < 2 ^ 31
            then np_trunc (v * of_int scale_factor) else - (2 ^ 31))"
    using qv by (simp only: q_def Sr x_def)
  have c2: "dequantize (quantize v scale_factor) scale_factor
           = of_int (quantize v scale_factor) / of_int scale_factor"
    using deq by (simp only: q_def Sr)
  have c3: "- (2 ^ 31) - 1 < v * of_int scale_factor \<and> v * of_int scale_factor < 2 ^ 31 \<longrightarrow>
            \<bar>dequantize (quantize v scale_factor) scale_factor - v\<bar> < 1 / of_int scale_factor"
    using err by (simp only: q_def Sr x_def) blast
  show ?thesis using c1 c2 c3 by (intro conjI)
qed

theorem quantize_truncates_witness:
  "is_float32 (7 / 262144) \<and> quantize (7 / 262144) 65536 = 1
   \<and> dequantize 1 65536 = 1 / 65536
   \<and> \<bar>dequantize 1 65536 - 7 / 262144\<bar> < 1 / 65536"
proof -
  have f: "is_float32 (7 / 262144)" using is_float32I [of 7 "- 18"] by simp
  have S: "(65536 :: int) = 2 ^ 16" by simp
  have k: "(16 :: nat) \<le> 62" by simp
  have r: "- (2 ^ 31) - 1 < (7 / 262144 :: rat) * of_int 65536
           \<and> (7 / 262144 :: rat) * of_int 65536 < 2 ^ 31"
    by simp
  have t: "np_trunc (7 / 262144 * of_int 65536) = 1"
    by (simp add: np_trunc_def floor_eq_iff)
  note main = quantize_truncates [OF f S k]
  have q: "quantize (7 / 262144) 65536 = 1"
    using conjunct1 [OF main] r t by simp
  have d: "dequantize 1 65536 = 1 / 65536"
    using conjunct1 [OF conjunct2 [OF main]] by (simp add: q)
  have e: "\<bar>dequantize 1 65536 - 7 / 262144\<bar> < 1 / 65536"
    using conjunct2 [OF conjunct2 [OF main]] r by (simp add: q)
  show ?thesis using f q d e by (intro conjI)
qed

text \<open>
  The claim as stated fails at \<open>v = 0.75 / 65536\<close> (a float32): rounding gives 1, the
  code gives 0, and the round-trip error \<open>0.75 / 65536\<close> exceeds \<open>0.5 / 65536\<close>. At
  \<open>v = 32768\<close> the scaled value \<open>2 ^ 31\<close> does not fit in int32 and the code returns
  \<open>-2147483648\<close>, which is neither the saturated value \<open>2147483647\<close> nor a rejection.
  Descaling the integer 16777217, which is not a float32, gives 256 and not
  \<open>16777217 / 65536\<close>.
\<close>

theorem quantize_counterexample:
  "is_float32 (3 / 262144) \<and> quantize (3 / 262144) 65536 = 0
   \<and> round (3 / 262144 * 65536 :: rat) = 1
   \<and> \<not> (\<bar>dequantize 0 65536 - 3 / 262144\<bar> \<le> (1 / 2) / 65536)
   \<and> is_float32 32768 \<and> quantize 32768 65536 = - 2147483648
   \<and> dequantize 16777217 65536 = 256"
proof -
  have f: "is_float32 (3 / 262144)" using is_float32I [of 3 "- 18"] by simp
  have q: "quantize (3 / 262144) 65536 = 0"
    using quantize_pow2 [OF f, of 16] by (simp add: astype_int32_def np_trunc_def floor_eq_iff)
  have d: "dequantize 0 65536 = 0" using dequantize_pow2 [of 0 16 0] by simp
  have g: "is_float32 32768" using is_float32I [of 1 15] by simp
  have o: "quantize 32768 65536 = - 2147483648"
    using quantize_pow2 [OF g, of 16] by (simp add: astype_int32_def)
  have 1: "float32 65536 = 65536" using float32_repr [of 1 16] by simp
  have 2: "float32 (16777216 / 65536) = 256" using float32_repr [of 1 8] by simp
  have b: "dequantize 16777217 65536 = 256"
    by (simp only: dequantize_def of_int_numeral float32_16777217 1 2)
  have r: "round (3 / 262144 * 65536 :: rat) = 1" by (simp add: round_def floor_eq_iff)
  show ?thesis using f q r d g o b by simp
qed

text \<open>
  C5. The claim asks the estimator and the generator to treat a column index of \<open>A\<close>
  outside the row range of \<open>AT\<close> alike. On \<open>wide_A\<close> and \<open>narrow_AT\<close> the code does
  not: the estimator skips the index and returns 0, the generator reads
  \<^verbatim>\<open>AT_indptr[k + 1]\<close> out of range and raises.
\<close>

theorem estimator_skips_where_generator_raises:
  "indices wide_A = [1] \<and> shape_rows narrow_AT = 1
   \<and> estimate_products wide_A narrow_AT = Inr 0
   \<and> prealloc_traverse int_ops wide_A narrow_AT = Inl IndexError
   \<and> produce_products_scipy_optimized int_ops wide_A narrow_AT = Inl IndexError"
  by (simp add: gen_eval wide_A_def narrow_AT_def)

text \<open>
  C6. For the reference \<open>{(0,1): 2.0}\<close> and an empty observed stream the verifier finds
  one ID mismatch, reported as missing on the observed side (\<open>in_golden_only\<close>), and no
  rating mismatch, whatever the tolerance and the threshold; with the defaults of the
  source it fails the ID check and writes only the ID-mismatch file. In general the
  rating mismatches are counted among rows whose key occurs in both inputs, and no row is
  both an ID mismatch and a rating mismatch.
\<close>

theorem one_sided_key_is_id_mismatch:
  "compare_recommendations (Some [((0, 1), 2)]) (Some []) (1 / 2) 5
     = Some \<lparr>passed = False, total_unique_pairs = 1, id_mismatch_count = 1,
             common_rows_count = 0, rating_mismatch_count = 0, summary_csv = None,
             id_mismatches_csv = Some [((0, 1), ''in_golden_only'')],
             rating_mismatches_csv = None\<rparr>
   \<and> map_option id_mismatch_count (compare_recommendations (Some [((0, 1), 2)]) (Some []) tol thr)
       = Some 1
   \<and> map_option rating_mismatch_count (compare_recommendations (Some [((0, 1), 2)]) (Some []) tol thr)
       = Some 0
   \<and> map_option rating_mismatch_count (compare_recommendations (Some golden) (Some cop) tol thr)
       = Some (length (mismatched_ratings tol (merge_outer golden cop)))
   \<and> map_option id_mismatch_count (compare_recommendations (Some golden) (Some cop) tol thr)
       = Some (length (uncommon_rows (merge_outer golden cop)))
   \<and> fst ` set (mismatched_ratings tol (merge_outer golden cop))
       \<subseteq> fst ` set golden \<inter> fst ` set cop
   \<and> set (mismatched_ratings tol (merge_outer golden cop))
       \<inter> set (uncommon_rows (merge_outer golden cop)) = {}"
proof -
  have a: "compare_recommendations (Some [((0, 1), 2)]) (Some []) (1 / 2) 5
     = Some \<lparr>passed = False, total_unique_pairs = 1, id_mismatch_count = 1,
             common_rows_count = 0, rating_mismatch_count = 0, summary_csv = None,
             id_mismatches_csv = Some [((0, 1), ''in_golden_only'')],
             rating_mismatches_csv = None\<rparr>"
    by (simp add: compare_recommendations_def merge_outer_def common_rows_def
        uncommon_rows_def mismatched_ratings_def source_file_def Let_def)
  have b: "map_option id_mismatch_count
             (compare_recommendations (Some [((0, 1), 2)]) (Some []) tol thr) = Some 1"
    by (simp add: compare_recommendations_def merge_outer_def common_rows_def
        uncommon_rows_def mismatched_ratings_def Let_def)
  have c: "map_option rating_mismatch_count
             (compare_recommendations (Some [((0, 1), 2)]) (Some []) tol thr) = Some 0"
    by (simp add: compare_recommendations_def merge_outer_def common_rows_def
        uncommon_rows_def mismatched_ratings_def Let_def)
  have d: "map_option rating_mismatch_count
             (compare_recommendations (Some golden) (Some cop) tol thr)
           = Some (length (mismatched_ratings tol (merge_outer golden cop)))"
    by (simp add: compare_recommendations_def Let_def mismatched_ratings_def)
  have e: "map_option id_mismatch_count
             (compare_recommendations (Some golden) (Some cop) tol thr)
           = Some (length (uncommon_rows (merge_outer golden cop)))"
    by (simp add: compare_recommendations_def Let_def)
  have f: "fst ` set (mismatched_ratings tol (merge_outer golden cop))
           \<subseteq> fst ` set golden \<inter> fst ` set cop"
  proof
    fix k assume "k \<in> fst ` set (mismatched_ratings tol (merge_outer golden cop))"
    then obtain r where r: "r \<in> set (mismatched_ratings tol (merge_outer golden cop))" "k = fst r"
      by auto
    from mismatched_ratings_both [OF r(1)] merge_outer_both [of r golden cop]
    show "k \<in> fst ` set golden \<inter> fst ` set cop" using r(2) by simp
  qed
  have g: "set (mismatched_ratings tol (merge_outer golden cop))
           \<inter> set (uncommon_rows (merge_outer golden cop)) = {}"
    by (auto simp: mismatched_ratings_def common_rows_def uncommon_rows_def)
  show ?thesis using a b c d e f g by (intro conjI)
qed

theorem one_sided_key_is_id_mismatch_witness:
  "map_option rating_mismatch_count
     (compare_recommendations (Some [((0, 0), 1), ((0, 1), 2)]) (Some [((0, 0), 3)]) (1 / 2) 5)
     = Some 1
   \<and> map_option id_mismatch_count
     (compare_recommendations (Some [((0, 0), 1), ((0, 1), 2)]) (Some [((0, 0), 3)]) (1 / 2) 5)
     = Some 1
   \<and> fst ` set (mismatched_ratings (1 / 2) (merge_outer [((0, 0), 1), ((0, 1), 2)] [((0::int, 0::int), 3)]))
       = {(0, 0)}"
proof -
  have m: "mismatched_ratings (1 / 2) (merge_outer [((0, 0), 1), ((0, 1), 2)] [((0::int, 0::int), 3)])
           = [((0, 0), Some 1, Some 3, both)]"
    by code_simp
  have u: "uncommon_rows (merge_outer [((0, 0), 1), ((0, 1), 2)] [((0::int, 0::int), 3 :: rat)])
           = [((0, 1), Some (2 :: rat), None, left_only)]"
    by code_simp
  from one_sided_key_is_id_mismatch [of "1 / 2" 5 "[((0, 0), 1), ((0, 1), 2)]" "[((0, 0), 3)]"]
  show ?thesis by (simp add: m u)
qed

text \<open>
  C7. For every estimated product count and every budget (in GiB, as the source holds
  it), the planner answers \<open>Prealloc\<close> exactly when the estimate times the 12 bytes of a
  triple (one 4-byte value, two 4-byte indices) is at most the budget in bytes, and
  \<open>Stream\<close> in every other case; the answer is a function of these two numbers alone.
  With the budget of \<^verbatim>\<open>main\<close> (4 GiB) the threshold is \<open>4294967296\<close> bytes.
\<close>

theorem plan_mode_threshold:
  "(plan_mode budget n = Prealloc) = (of_int (n * 12) \<le> budget * 1024 ^ 3)
   \<and> (plan_mode budget n = Stream) = (budget * 1024 ^ 3 < of_int (n * 12))
   \<and> (main_mode n = Prealloc) = (n * 12 \<le> 4294967296)
   \<and> (main_mode n = Stream) = (4294967296 < n * 12)
   \<and> bytes_per_triple = 4 + 4 + 4"
proof -
  have pos: "(0::rat) < of_int (1024 ^ 3)" by simp
  have key: "(est_mem_GiB n \<le> b) = (of_int (n * 12) \<le> b * 1024 ^ 3)" for b
    unfolding est_mem_GiB_def bytes_per_triple_def
    using pos by (simp add: pos_divide_le_eq mult.commute)
  have four: "(of_int (n * 12) \<le> (4::rat) * 1024 ^ 3) = (n * 12 \<le> 4294967296)"
  proof -
    have "(4::rat) * 1024 ^ 3 = of_int 4294967296" by simp
    then show ?thesis by (simp only: of_int_le_iff)
  qed
  show ?thesis
    using key [of budget] key [of 4] four
    by (auto simp: plan_mode_def main_mode_def MAX_RAM_GiB_def bytes_per_triple_def)
qed

text \<open>
  C8 (as amended). The loader resolves each of the three required fields by a scan over
  the columns in which every match overwrites the previous one: the column used is the
  last one whose name is an alias of the field. When a field matches no column the load
  stops with a \<open>ValueError\<close>, before the dimensions are computed.
\<close>

theorem resolve_columns_last_match:
  "resolve_columns cols =
     (let us = filter (\<lambda>c. c \<in> set user_aliases) cols;
          is = filter (\<lambda>c. c \<in> set item_aliases) cols;
          rs = filter (\<lambda>c. c \<in> set rating_aliases) cols
      in if us = [] \<or> is = [] \<or> rs = [] then Inl ValueError
         else Inr (last us, last is, last rs))"
  by (simp add: resolve_columns_def scan_fold last_match_None Let_def)

text \<open>
  The claim as stated takes the first matching column: with the columns
  \<open>user_id, item_id, rating, user\<close> that is \<open>user_id\<close>, and the code takes \<open>user\<close>.
\<close>

theorem resolve_columns_counterexample:
  "resolve_columns [''user_id'', ''item_id'', ''rating'', ''user'']
     = Inr (''user'', ''item_id'', ''rating'')
   \<and> find (\<lambda>c. c \<in> set user_aliases) [''user_id'', ''item_id'', ''rating'', ''user'']
     = Some ''user_id''"
  by code_simp

text \<open>
  C9. The claim has a one-sided key matched exactly when the value that is present is
  within the tolerance of 0, as the description of the checker has it for every row
  (\<^verbatim>\<open>match is 1 if |gold - hw| <= 1e-6, else 0\<close>). The code calls
  \<^verbatim>\<open>np.isclose(gold, hw, atol=TOL)\<close> and leaves the relative tolerance at its default
  \<open>1e-5\<close>, so the test is \<open>|gold - hw| \<le> TOL + 1e-5 * |hw|\<close>. For an observed-only key
  with the sum \<open>1.000005e-6\<close> the reference side is filled with 0, the difference is
  above \<open>TOL\<close>, and the row is marked \<open>match = 1\<close>. The same happens for a key on both
  sides: \<open>gold = 100\<close> and \<open>hw = 100.0005\<close> differ by \<open>5e-4\<close> and are matched. (A
  one-sided key gets one row with the absent side 0 and no classification of its own;
  lemma \<open>build_report_one_sided_key\<close> has both sides in general.)
\<close>

theorem build_report_match_beyond_tolerance:
  "build_report [] [((0, 0), 1000005 / 10 ^ 12)] = [(0, 0, 0, 1000005 / 10 ^ 12, 1)]
   \<and> \<not> (\<bar>0 - 1000005 / 10 ^ 12\<bar> \<le> TOL)
   \<and> build_report [((0, 0), 100)] [((0, 0), 1000005 / 10 ^ 4)]
       = [(0, 0, 100, 1000005 / 10 ^ 4, 1)]
   \<and> \<not> (\<bar>100 - 1000005 / 10 ^ 4\<bar> \<le> TOL)"
  by (simp add: build_report_def merge_outer_def isclose_def fillna0_def TOL_def)

text \<open>
  C10. The reference loader gives the same result with and without the input rows whose
  \<open>row_idx_i\<close> is 0.5; it fails exactly when a required column is missing; and when it
  returns, its keys are the keys \<open>(i, j)\<close> of the input rows with \<open>i \<noteq> 0.5\<close>, each
  once, with the sum of \<open>prod\<close> over all input rows of that key. So rows with 0.5
  contribute to no sum and no key, and every other row is kept.
\<close>

theorem load_sw_drops_half_rows:
  "load_sw cols rows = load_sw cols (filter (\<lambda>(i, j, p). i \<noteq> 1 / 2) rows)
   \<and> (load_sw cols rows = Inl ValueError)
       = (\<not> {''row_idx_i'', ''col_idx_j'', ''prod''} \<subseteq> set cols)
   \<and> (\<forall>out. load_sw cols rows = Inr out \<longrightarrow>
         distinct (map fst out)
         \<and> fst ` set out = {(i, j) | i j p. (i, j, p) \<in> set rows \<and> i \<noteq> 1 / 2}
         \<and> (\<forall>k g. (k, g) \<in> set out \<longrightarrow>
               g = sum_list (map (\<lambda>(i, j, p). p) (filter (\<lambda>(i, j, p). (i, j) = k) rows))))"
proof (intro conjI allI impI)
  have ld: "load_sw cols rows =
      (if \<not> {''row_idx_i'', ''col_idx_j'', ''prod''} \<subseteq> set cols then Inl ValueError
       else Inr (groupby_sum (kept rows)))" for rows
    by (simp only: load_sw_def kept_def)
  show "load_sw cols rows = load_sw cols (filter (\<lambda>(i, j, p). i \<noteq> 1 / 2) rows)"
    by (simp only: ld kept_idem)
  show "(load_sw cols rows = Inl ValueError)
       = (\<not> {''row_idx_i'', ''col_idx_j'', ''prod''} \<subseteq> set cols)"
    by (simp only: ld split: if_split) simp
  fix out assume o: "load_sw cols rows = Inr out"
  then have out: "out = groupby_sum (kept rows)"
    by (simp only: ld split: if_splits) simp_all
  show "distinct (map fst out)"
    by (simp only: out keys_groupby_sum distinct_first_seen)
  have keys: "fst ` set out = fst ` set (kept rows)"
  proof -
    have "fst ` set out = set (map fst out)" by simp
    also have "\<dots> = set (map fst (kept rows))"
      by (simp only: out keys_groupby_sum set_first_seen)
    finally show ?thesis by simp
  qed
  show "fst ` set out = {(i, j) | i j p. (i, j, p) \<in> set rows \<and> i \<noteq> 1 / 2}"
    by (simp only: keys keys_kept)
  fix k g assume kg: "(k, g) \<in> set out"
  then have "k \<in> fst ` set (kept rows)" using keys by force
  then have half: "fst k \<noteq> 1 / 2" by (auto simp: keys_kept)
  have "g = sum_list (map snd (filter (\<lambda>kv. fst kv = k) (kept rows)))"
    using kg out groupby_sum_value by simp
  then show "g = sum_list (map (\<lambda>(i, j, p). p) (filter (\<lambda>(i, j, p). (i, j) = k) rows))"
    by (simp only: filter_kept [OF half])
qed

theorem load_sw_drops_half_rows_witness:
  "load_sw [''prod'', ''row_idx_i'', ''col_idx_j'']
      [(0, 0, 5), (1 / 2, 0, 100), (0, 0, 14), (1, 2, 3), (1 / 2, 7, 1)]
     = Inr [((0, 0), 19), ((1, 2), 3)]
   \<and> load_sw [''prod'', ''row_idx_i'', ''col_idx_j'']
      [(0, 0, 5), (1 / 2, 0, 100), (0, 0, 14), (1, 2, 3), (1 / 2, 7, 1)]
     = load_sw [''prod'', ''row_idx_i'', ''col_idx_j'']
         (filter (\<lambda>(i, j, p). i \<noteq> 1 / 2)
            [(0, 0, 5), (1 / 2, 0, 100), (0, 0, 14), (1, 2, 3), (1 / 2, 7, 1)])
   \<and> ((0, 0), 19) \<in> set [((0::rat, 0::rat), 19::rat), ((1, 2), 3)]
   \<and> (19::rat) = sum_list (map (\<lambda>(i, j, p). p) (filter (\<lambda>(i, j, p). (i, j) = (0, 0))
         [(0::rat, 0::rat, 5::rat), (1 / 2, 0, 100), (0, 0, 14), (1, 2, 3), (1 / 2, 7, 1)]))"
proof -
  have e: "load_sw [''prod'', ''row_idx_i'', ''col_idx_j'']
      [(0, 0, 5), (1 / 2, 0, 100), (0, 0, 14), (1, 2, 3), (1 / 2, 7, 1)]
     = Inr [((0, 0), 19), ((1, 2), 3)]"
    by code_simp
  from load_sw_drops_half_rows [of "[''prod'', ''row_idx_i'', ''col_idx_j'']"
      "[(0, 0, 5), (1 / 2, 0, 100), (0, 0, 14), (1, 2, 3), (1 / 2, 7, 1)]"] e
  show ?thesis by simp
qed

end
